theory Spec2Isabelle
  imports Main
begin

chapter \<open>The program\<close>

section \<open>Strings\<close>

text \<open>
  Outside the envelope parser a JavaScript string is modelled as a \<^typ>\<open>string\<close>: each
  \<^typ>\<open>char\<close> stands for one UTF-16 code unit below 256 (the Latin-1 range), which covers
  the ANSI escape grammar, the hexadecimal digits and the command lines. \<open>length\<close> is
  JavaScript's \<open>.length\<close>, \<open>take\<close>/\<open>drop\<close> are \<open>slice(0, n)\<close>/\<open>slice(n)\<close> for \<open>0 \<le> n\<close>.
  The envelope parser lower-cases its input and has its own model of strings, over all
  code units (section \<open>UTF-16 code units\<close>).
\<close>

definition in_range :: "nat \<Rightarrow> nat \<Rightarrow> char \<Rightarrow> bool" where
  "in_range lo hi c = (lo \<le> (of_char c :: nat) \<and> (of_char c :: nat) \<le> hi)"

text \<open>White space and line terminators removed by \<open>String.prototype.trim\<close>, below 256:
  TAB, LF, VT, FF, CR, SPACE and NBSP.\<close>

definition is_space :: "char \<Rightarrow> bool" where
  "is_space c = (in_range 9 13 c \<or> c = CHR '' '' \<or> c = char_of (160::nat))"

definition trim :: "string \<Rightarrow> string" where
  "trim s = rev (dropWhile is_space (rev (dropWhile is_space s)))"

section \<open>ansiStrip.ts\<close>

text \<open>
  \<open>ANSI_RE = /\x1B(?:[@-Z\\-_]|\[[0-?]*[ -/]*[@-~])/g\<close>. The three character classes
  of the CSI alternative are pairwise disjoint, so the greedy stars never backtrack:
  a match at the start of \<open>s\<close>, if any, has the length computed here.
\<close>

definition ansi_match :: "string \<Rightarrow> nat option" where
  "ansi_match s =
     (case s of
        e # c # r \<Rightarrow>
          if e \<noteq> char_of (27::nat) then None
          else if in_range 64 90 c \<or> in_range 92 95 c then Some 2
          else if c = CHR ''['' then
            (let r1 = dropWhile (in_range 48 63) r;
                 r2 = dropWhile (in_range 32 47) r1
             in case r2 of
                  f # _ \<Rightarrow> if in_range 64 126 f
                           then Some (2 + (length r - length r2) + 1) else None
                | [] \<Rightarrow> None)
          else None
      | _ \<Rightarrow> None)"

lemma ansi_match_pos: "ansi_match s = Some n \<Longrightarrow> 0 < n \<and> s \<noteq> []"
  by (auto simp: ansi_match_def Let_def split: list.splits if_splits)

text \<open>\<open>str.replace(ANSI_RE, '')\<close> with the global flag: scan from the left, drop every
  match and resume after it.\<close>

function remove_ansi :: "string \<Rightarrow> string" where
  "remove_ansi s =
     (case ansi_match s of
        Some n \<Rightarrow> remove_ansi (drop n s)
      | None \<Rightarrow> (case s of [] \<Rightarrow> [] | c # r \<Rightarrow> c # remove_ansi r))"
  by pat_completeness auto
termination
  by (relation "measure length") (auto dest: ansi_match_pos)

declare remove_ansi.simps [simp del]

definition stripAnsi :: "string \<Rightarrow> string" where
  "stripAnsi str = filter (\<lambda>c. c \<noteq> char_of (13::nat)) (remove_ansi str)"

section \<open>UTF-16 code units\<close>

text \<open>
  The envelope parser reads the decoded output of a process, which can hold any
  character, and it lower-cases that text, which JavaScript does over all of Unicode.
  For the parser a JavaScript string is therefore the list of its UTF-16 code units,
  each an integer (from 0 to 65535; no definition depends on these bounds). \<open>length\<close>
  is \<open>.length\<close>, \<open>take\<close>/\<open>drop\<close> are \<open>slice(0, n)\<close>/\<open>slice(n)\<close> for \<open>0 \<le> n\<close>, also when \<open>n\<close>
  is beyond the end. \<open>str\<close> turns an ASCII literal into its code units.
\<close>

type_synonym ustring = "int list"

definition cu :: "char \<Rightarrow> int" where
  "cu c = of_char c"

definition str :: "string \<Rightarrow> ustring" where
  "str s = map cu s"

definition between :: "int \<Rightarrow> int \<Rightarrow> int \<Rightarrow> bool" where
  "between lo hi c = (lo \<le> c \<and> c \<le> hi)"

text \<open>
  \<open>String.prototype.toLowerCase\<close>. The capital I with dot above (U+0130 = 304) becomes
  the two units U+0069 U+0307: it is the one character whose lower-case form is longer
  than itself, so the lowered copy of a text that holds it is longer than the text.
  The Kelvin sign (U+212A = 8490) becomes the ASCII letter k. A-Z, and the accented
  capitals U+00C0..U+00DE (without the multiplication sign U+00D7), move up by 32.
  Every other unit is kept. JavaScript turns each remaining character outside ASCII
  into one character outside ASCII that has as many code units, so the lowered copy
  has in the model the length it has in JavaScript and the same ASCII units at the same
  places. That is all the parser reads of it: it searches the lowered capture buffer for
  the ASCII close tag, and it lowers a word of ASCII letters, digits and \<open>_\<close>.
\<close>

definition lower_unit :: "int \<Rightarrow> ustring" where
  "lower_unit c =
     (if c = 304 then [105, 775]
      else if c = 8490 then [107]
      else if between 65 90 c \<or> (between 192 222 c \<and> c \<noteq> 215) then [c + 32]
      else [c])"

definition toLowerCase :: "ustring \<Rightarrow> ustring" where
  "toLowerCase s = concat (map lower_unit s)"

text \<open>The white space and line terminators that \<open>String.prototype.trim\<close> removes: TAB, LF,
  VT, FF, CR, SPACE, NBSP, U+1680, U+2000..U+200A, U+2028, U+2029, U+202F, U+205F,
  U+3000 and U+FEFF.\<close>

definition is_white :: "int \<Rightarrow> bool" where
  "is_white c =
     (between 9 13 c \<or> c = 32 \<or> c = 160 \<or> c = 5760 \<or> between 8192 8202 c
      \<or> c = 8232 \<or> c = 8233 \<or> c = 8239 \<or> c = 8287 \<or> c = 12288 \<or> c = 65279)"

definition trim16 :: "ustring \<Rightarrow> ustring" where
  "trim16 s = rev (dropWhile is_white (rev (dropWhile is_white s)))"

text \<open>\<open>haystack.indexOf(needle)\<close>: the first index at which \<open>needle\<close> occurs, \<open>None\<close>
  for JavaScript's \<open>-1\<close>.\<close>

fun indexOf :: "ustring \<Rightarrow> ustring \<Rightarrow> nat option" where
  "indexOf needle [] = (if needle = [] then Some 0 else None)"
| "indexOf needle (c # cs) =
     (if take (length needle) (c # cs) = needle then Some 0
      else map_option Suc (indexOf needle cs))"

text \<open>\<open>s.slice(-n)\<close> for \<open>0 < n\<close>: the last \<open>n\<close> units (all of \<open>s\<close> when it is shorter).\<close>

definition slice_last :: "nat \<Rightarrow> ustring \<Rightarrow> ustring" where
  "slice_last n s = drop (length s - n) s"

text \<open>
  \<open>stripAnsi\<close> of \<open>ansiStrip.ts\<close> on code units. Every unit that \<open>ANSI_RE\<close> and \<open>/\r/g\<close>
  name is below 128, so a unit from 256 on is kept like any other ordinary character.
\<close>

definition ansi_match16 :: "ustring \<Rightarrow> nat option" where
  "ansi_match16 s =
     (case s of
        e # c # r \<Rightarrow>
          if e \<noteq> 27 then None
          else if between 64 90 c \<or> between 92 95 c then Some 2
          else if c = cu CHR ''['' then
            (let r1 = dropWhile (between 48 63) r;
                 r2 = dropWhile (between 32 47) r1
             in case r2 of
                  f # _ \<Rightarrow> if between 64 126 f
                           then Some (2 + (length r - length r2) + 1) else None
                | [] \<Rightarrow> None)
          else None
      | _ \<Rightarrow> None)"

lemma ansi_match16_pos: "ansi_match16 s = Some n \<Longrightarrow> 0 < n \<and> s \<noteq> []"
  by (auto simp: ansi_match16_def Let_def split: list.splits if_splits)

function remove_ansi16 :: "ustring \<Rightarrow> ustring" where
  "remove_ansi16 s =
     (case ansi_match16 s of
        Some n \<Rightarrow> remove_ansi16 (drop n s)
      | None \<Rightarrow> (case s of [] \<Rightarrow> [] | c # r \<Rightarrow> c # remove_ansi16 r))"
  by pat_completeness auto
termination
  by (relation "measure length") (auto dest: ansi_match16_pos)

declare remove_ansi16.simps [simp del]

definition stripAnsi16 :: "ustring \<Rightarrow> ustring" where
  "stripAnsi16 s = filter (\<lambda>c. c \<noteq> 13) (remove_ansi16 s)"

section \<open>envelopeParser.ts\<close>

datatype EnvelopeType = Progress | Question | Warning | Done | Error

text \<open>\<open>VALID_TYPES\<close>: the closed set of type tags, by name.\<close>

fun type_name :: "EnvelopeType \<Rightarrow> string" where
  "type_name Progress = ''progress''"
| "type_name Question = ''question''"
| "type_name Warning = ''warning''"
| "type_name Done = ''done''"
| "type_name Error = ''error''"

definition valid_type :: "ustring \<Rightarrow> EnvelopeType option" where
  "valid_type w =
     (if w = str ''progress'' then Some Progress
      else if w = str ''question'' then Some Question
      else if w = str ''warning'' then Some Warning
      else if w = str ''done'' then Some Done
      else if w = str ''error'' then Some Error
      else None)"

text \<open>An \<open>EnvelopeMessage\<close>. The field \<open>incomplete\<close> is optional in the source
  (\<open>incomplete?: boolean\<close>): \<open>None\<close> is the absent field, which every reader of the
  message takes as false (\<open>msg.incomplete ? ... : ''\<close>).\<close>

record EnvelopeMessage =
  msg_type :: "EnvelopeType option"
  msg_text :: ustring
  incomplete :: "bool option"

definition is_incomplete :: "EnvelopeMessage \<Rightarrow> bool" where
  "is_incomplete m = (incomplete m = Some True)"

datatype parser_state = Scanning | Capturing

text \<open>A timer handle returned by \<open>setTimeout\<close>: still to fire, already fired, or
  cancelled by \<open>clearTimeout\<close>.\<close>

datatype timer = Pending | Fired | Cleared

text \<open>
  The fields of the class \<open>EnvelopeParser\<close>, and \<open>emitted\<close>: the \<open>'envelope'\<close> events
  emitted so far, oldest first.
\<close>

record EnvelopeParser =
  state :: parser_state
  scanBuffer :: ustring
  captureBuffer :: ustring
  currentType :: "EnvelopeType option"
  activated :: bool
  activationTimer :: timer
  unclosedTimer :: "timer option"
  emitted :: "EnvelopeMessage list"

definition CLOSE_TAG :: ustring where
  "CLOSE_TAG = str ''<<<end_slack>>>''"

definition SCAN_TAIL :: nat where
  "SCAN_TAIL = 40"

text \<open>
  \<open>OPEN_TAG_RE = /<<<slack(?::(\w+))?>>>/i\<close>. Without the \<open>u\<close> flag, a character
  matches a pattern letter case-insensitively when their upper-case forms agree, and a
  character from 128 on never folds to an ASCII one: only the two ASCII cases of a
  letter match it. \<open>\w\<close> is \<open>[A-Za-z0-9_]\<close>.
\<close>

definition ci_eq :: "int \<Rightarrow> int \<Rightarrow> bool" where
  "ci_eq p c = (c = p \<or> (between 97 122 p \<and> c + 32 = p))"

definition is_word :: "int \<Rightarrow> bool" where
  "is_word c = (between 48 57 c \<or> between 65 90 c \<or> between 97 122 c \<or> c = cu CHR ''_'')"

text \<open>A match of \<open>OPEN_TAG_RE\<close> that starts at the first character of \<open>s\<close>: its length
  and its capture group 1 (\<open>None\<close> when the optional group did not take part).\<close>

definition match_open_here :: "ustring \<Rightarrow> (nat \<times> ustring option) option" where
  "match_open_here s =
     (if length s \<ge> 8 \<and> list_all2 ci_eq (str ''<<<slack'') (take 8 s) then
        (case drop 8 s of
           [] \<Rightarrow> None
         | c # r \<Rightarrow>
             if c = cu CHR '':'' then
               (if takeWhile is_word r \<noteq> [] \<and> take 3 (dropWhile is_word r) = str ''>>>''
                then Some (12 + length (takeWhile is_word r), Some (takeWhile is_word r))
                else None)
             else if take 3 (c # r) = str ''>>>'' then Some (11, None)
             else None)
      else None)"

text \<open>\<open>OPEN_TAG_RE.exec(s)\<close>: the leftmost match, as (index, length, group 1).\<close>

fun exec_open :: "ustring \<Rightarrow> (nat \<times> nat \<times> ustring option) option" where
  "exec_open [] = None"
| "exec_open (c # cs) =
     (case match_open_here (c # cs) of
        Some (len, grp) \<Rightarrow> Some (0, len, grp)
      | None \<Rightarrow> map_option (\<lambda>(i, len, grp). (Suc i, len, grp)) (exec_open cs))"

text \<open>\<open>rawType && VALID_TYPES.has(rawType) ? rawType : null\<close> with
  \<open>rawType = match[1]?.toLowerCase()\<close>.\<close>

definition resolve_type :: "ustring option \<Rightarrow> EnvelopeType option" where
  "resolve_type grp = (case grp of None \<Rightarrow> None | Some w \<Rightarrow> valid_type (toLowerCase w))"

text \<open>The parser as the constructor leaves it: the activation timer is pending.\<close>

definition new_parser :: EnvelopeParser where
  "new_parser = \<lparr> state = Scanning, scanBuffer = [], captureBuffer = [],
     currentType = None, activated = False, activationTimer = Pending,
     unclosedTimer = None, emitted = [] \<rparr>"

text \<open>The callback of the activation timer.\<close>

definition activation_fires :: "EnvelopeParser \<Rightarrow> EnvelopeParser" where
  "activation_fires p =
     (if activationTimer p = Pending then p\<lparr>activated := True, activationTimer := Fired\<rparr> else p)"

lemma takeWhile_dropWhile_length: "length (takeWhile P r) + length (dropWhile P r) = length r"
  by (induction r) simp_all

lemma take3_length: "take 3 xs = str ''>>>'' \<Longrightarrow> 3 \<le> length xs"
proof -
  assume "take 3 xs = str ''>>>''"
  then have "length (take 3 xs) = 3" by (simp add: str_def)
  then show ?thesis by simp
qed

lemma match_open_here_len: "match_open_here s = Some (len, grp) \<Longrightarrow> 11 \<le> len \<and> len \<le> length s"
proof -
  assume m: "match_open_here s = Some (len, grp)"
  then have l8: "8 \<le> length s"
    by (auto simp: match_open_here_def split: if_splits)
  obtain c r where dr: "drop 8 s = c # r"
    using m by (auto simp: match_open_here_def split: if_splits list.splits)
  have "length (drop 8 s) = Suc (length r)" by (simp add: dr)
  then have ls: "length s = 9 + length r" using l8 by simp
  show ?thesis
  proof (cases "c = cu CHR '':''")
    case True
    with m dr have w: "take 3 (dropWhile is_word r) = str ''>>>''" and len: "len = 12 + length (takeWhile is_word r)"
      by (auto simp: match_open_here_def split: if_splits)
    have "length (takeWhile is_word r) + length (dropWhile is_word r) = length r"
      by (rule takeWhile_dropWhile_length)
    moreover have "3 \<le> length (dropWhile is_word r)"
      using w by (rule take3_length)
    ultimately show ?thesis using len ls by simp
  next
    case False
    with m dr have w: "take 3 (c # r) = str ''>>>''" and len: "len = 11"
      by (auto simp: match_open_here_def split: if_splits)
    have "3 \<le> length (c # r)"
      using w by (rule take3_length)
    then show ?thesis using len ls by simp
  qed
qed

lemma exec_open_bounds:
  "exec_open s = Some (i, len, grp) \<Longrightarrow> 11 \<le> len \<and> i + len \<le> length s"
proof (induction s arbitrary: i)
  case Nil
  then show ?case by simp
next
  case (Cons c cs)
  show ?case
  proof (cases "match_open_here (c # cs)")
    case None
    with Cons.prems obtain j where j: "exec_open cs = Some (j, len, grp)" and i: "i = Suc j"
      by auto
    from Cons.IH [OF j] i show ?thesis by simp
  next
    case (Some a)
    with Cons.prems have "match_open_here (c # cs) = Some (len, grp)" and "i = 0"
      by (auto split: prod.splits)
    then show ?thesis using match_open_here_len by fastforce
  qed
qed

lemma indexOf_bounds: "indexOf n h = Some i \<Longrightarrow> i + length n \<le> length h"
proof (induction h arbitrary: i)
  case Nil
  then show ?case by (simp split: if_splits)
next
  case (Cons c cs)
  show ?case
  proof (cases "take (length n) (c # cs) = n")
    case True
    then have "length (take (length n) (c # cs)) = length n" by simp
    then have "length n \<le> length (c # cs)" by simp
    with True Cons.prems show ?thesis by simp
  next
    case False
    with Cons.prems obtain j where "indexOf n cs = Some j" and "i = Suc j" by auto
    with Cons.IH show ?thesis by fastforce
  qed
qed

text \<open>
  \<open>tryScanOpen\<close> and \<open>tryClose\<close> call each other; every call works on a buffer shorter
  than the one of its caller.
\<close>

function tryScanOpen :: "EnvelopeParser \<Rightarrow> EnvelopeParser"
  and tryClose :: "EnvelopeParser \<Rightarrow> EnvelopeParser" where
  "tryScanOpen p =
     (case exec_open (scanBuffer p) of
        None \<Rightarrow>
          (if length (scanBuffer p) > SCAN_TAIL
           then p\<lparr>scanBuffer := slice_last SCAN_TAIL (scanBuffer p)\<rparr>
           else p)
      | Some (idx, len, grp) \<Rightarrow>
          tryClose (p\<lparr>currentType := resolve_type grp,
                      captureBuffer := drop (idx + len) (scanBuffer p),
                      scanBuffer := [],
                      state := Capturing,
                      unclosedTimer := Some Pending\<rparr>))"
| "tryClose p =
     (case indexOf CLOSE_TAG (toLowerCase (captureBuffer p)) of
        None \<Rightarrow> p
      | Some idx \<Rightarrow>
          (if drop (idx + length CLOSE_TAG) (captureBuffer p) \<noteq> []
           then tryScanOpen
                  (p\<lparr>unclosedTimer := None,
                     emitted := emitted p @
                       [\<lparr>msg_type = currentType p,
                         msg_text = trim16 (stripAnsi16 (take idx (captureBuffer p))),
                         incomplete = None\<rparr>],
                     state := Scanning,
                     captureBuffer := [],
                     scanBuffer := drop (idx + length CLOSE_TAG) (captureBuffer p)\<rparr>)
           else p\<lparr>unclosedTimer := None,
                  emitted := emitted p @
                    [\<lparr>msg_type = currentType p,
                      msg_text = trim16 (stripAnsi16 (take idx (captureBuffer p))),
                      incomplete = None\<rparr>],
                  state := Scanning,
                  captureBuffer := [],
                  scanBuffer := drop (idx + length CLOSE_TAG) (captureBuffer p)\<rparr>))"
  by pat_completeness auto
termination
proof (relation "measure (\<lambda>x. case x of Inl p \<Rightarrow> length (scanBuffer p) | Inr p \<Rightarrow> length (captureBuffer p))")
  show "wf (measure (\<lambda>x. case x of Inl p \<Rightarrow> length (scanBuffer p) | Inr p \<Rightarrow> length (captureBuffer p)))"
    by simp
next
  fix p :: EnvelopeParser and x2 idx y len grp
  assume "exec_open (scanBuffer p) = Some x2" "(idx, y) = x2" "(len, grp) = y"
  then have "exec_open (scanBuffer p) = Some (idx, len, grp)" by simp
  from exec_open_bounds [OF this]
  show "(Inr (p\<lparr>currentType := resolve_type grp,
                captureBuffer := drop (idx + len) (scanBuffer p),
                scanBuffer := [], state := Capturing, unclosedTimer := Some Pending\<rparr>), Inl p)
        \<in> measure (\<lambda>x. case x of Inl p \<Rightarrow> length (scanBuffer p) | Inr p \<Rightarrow> length (captureBuffer p))"
    by auto
next
  fix p :: EnvelopeParser and idx
  assume "indexOf CLOSE_TAG (toLowerCase (captureBuffer p)) = Some idx"
    and "drop (idx + length CLOSE_TAG) (captureBuffer p) \<noteq> []"
  then show "(Inl (p\<lparr>unclosedTimer := None,
                emitted := emitted p @
                  [\<lparr>msg_type = currentType p,
                    msg_text = trim16 (stripAnsi16 (take idx (captureBuffer p))),
                    incomplete = None\<rparr>],
                state := Scanning, captureBuffer := [],
                scanBuffer := drop (idx + length CLOSE_TAG) (captureBuffer p)\<rparr>), Inr p)
        \<in> measure (\<lambda>x. case x of Inl p \<Rightarrow> length (scanBuffer p) | Inr p \<Rightarrow> length (captureBuffer p))"
    by (simp add: CLOSE_TAG_def str_def)
qed

declare tryScanOpen.simps [simp del] tryClose.simps [simp del]

text \<open>\<open>push(data)\<close>: dropped before activation, else appended to the buffer of the
  current state.\<close>

definition push :: "ustring \<Rightarrow> EnvelopeParser \<Rightarrow> EnvelopeParser" where
  "push data p =
     (if \<not> activated p then p
      else if state p = Scanning
      then tryScanOpen (p\<lparr>scanBuffer := scanBuffer p @ data\<rparr>)
      else tryClose (p\<lparr>captureBuffer := captureBuffer p @ data\<rparr>))"

definition reset :: "EnvelopeParser \<Rightarrow> EnvelopeParser" where
  "reset p = p\<lparr>state := Scanning, scanBuffer := [], captureBuffer := [], currentType := None\<rparr>"

text \<open>\<open>clearTimeout\<close> cancels a pending timer and does nothing to any other.\<close>

definition clearTimeout :: "timer \<Rightarrow> timer" where
  "clearTimeout t = (if t = Pending then Cleared else t)"

text \<open>\<open>flush()\<close>, called when the process exits.\<close>

definition flush :: "EnvelopeParser \<Rightarrow> EnvelopeParser" where
  "flush p =
     reset
       ((if state p = Capturing \<and> trim16 (captureBuffer p) \<noteq> []
         then p\<lparr>emitted := emitted p @
                  [\<lparr>msg_type = currentType p,
                    msg_text = trim16 (stripAnsi16 (captureBuffer p)),
                    incomplete = Some True\<rparr>]\<rparr>
         else p)
        \<lparr>activationTimer := clearTimeout (activationTimer p),
         unclosedTimer := map_option clearTimeout (unclosedTimer p)\<rparr>)"

text \<open>\<open>flushPartial()\<close>, the body of the unclosed-timeout callback.\<close>

definition flushPartial :: "EnvelopeParser \<Rightarrow> EnvelopeParser" where
  "flushPartial p =
     (if trim16 (stripAnsi16 (captureBuffer p)) \<noteq> []
      then p\<lparr>emitted := emitted p @
               [\<lparr>msg_type = currentType p,
                 msg_text = trim16 (stripAnsi16 (captureBuffer p)),
                 incomplete = Some True\<rparr>]\<rparr>
      else p)
     \<lparr>state := Scanning, captureBuffer := []\<rparr>"

text \<open>The unclosed timer fires: only a pending timer can, and it runs \<open>flushPartial\<close>.\<close>

definition unclosed_fires :: "EnvelopeParser \<Rightarrow> EnvelopeParser" where
  "unclosed_fires p =
     (if unclosedTimer p = Some Pending
      then flushPartial (p\<lparr>unclosedTimer := Some Fired\<rparr>)
      else p)"

text \<open>Feeding chunks in order, one \<open>push\<close> per chunk.\<close>

definition feed :: "ustring list \<Rightarrow> EnvelopeParser \<Rightarrow> EnvelopeParser" where
  "feed chunks p = foldl (\<lambda>q d. push d q) p chunks"

text \<open>A match found in the text after its first \<open>k\<close> characters, as a match of the whole
  text.\<close>

definition shift :: "nat \<Rightarrow> nat \<times> nat \<times> ustring option \<Rightarrow> nat \<times> nat \<times> ustring option" where
  "shift k m = (case m of (i, len, grp) \<Rightarrow> (i + k, len, grp))"

text \<open>Every open marker in \<open>s\<close> is at most \<open>SCAN_TAIL + 1\<close> characters long.\<close>

definition short_tags :: "ustring \<Rightarrow> bool" where
  "short_tags s =
     list_all (\<lambda>j. case match_open_here (drop j s) of
                      None \<Rightarrow> True
                    | Some (len, grp) \<Rightarrow> len \<le> SCAN_TAIL + 1)
       [0..<length s]"

text \<open>A parser right after its activation timer fired.\<close>

definition activated_parser :: EnvelopeParser where
  "activated_parser = activation_fires new_parser"

text \<open>The markers of the wire format, each letter in upper or lower case.\<close>

definition is_open_marker :: "EnvelopeType \<Rightarrow> ustring \<Rightarrow> bool" where
  "is_open_marker t om = list_all2 ci_eq (str ''<<<slack:'' @ str (type_name t) @ str ''>>>'') om"

definition is_untyped_open_marker :: "ustring \<Rightarrow> bool" where
  "is_untyped_open_marker om = list_all2 ci_eq (str ''<<<slack>>>'') om"

definition is_close_marker :: "ustring \<Rightarrow> bool" where
  "is_close_marker cm = list_all2 ci_eq CLOSE_TAG cm"

text \<open>The text holds what \<open>tryClose\<close> takes for a close marker: the lowered text holds the
  close tag.\<close>

definition contains_close :: "ustring \<Rightarrow> bool" where
  "contains_close s = (indexOf CLOSE_TAG (toLowerCase s) \<noteq> None)"

text \<open>Lower-casing keeps the length of the text: the text holds no U+0130.\<close>

definition lower_stable :: "ustring \<Rightarrow> bool" where
  "lower_stable s = (length (toLowerCase s) = length s)"

text \<open>The parser after a complete envelope of type \<open>ty\<close> (\<open>None\<close> for untyped) with the
  text \<open>body\<close>.\<close>

definition after_envelope :: "EnvelopeType option \<Rightarrow> ustring \<Rightarrow> EnvelopeParser \<Rightarrow> EnvelopeParser" where
  "after_envelope ty body p =
     p\<lparr>state := Scanning, scanBuffer := [], captureBuffer := [], currentType := ty,
       unclosedTimer := None,
       emitted := emitted p @
         [\<lparr>msg_type = ty, msg_text = trim16 (stripAnsi16 body), incomplete = None\<rparr>]\<rparr>"

text \<open>What can happen to a parser: a chunk is pushed, one of its two timers fires, or
  \<open>flush\<close> is called. \<open>run_parser\<close> runs a sequence of such events on a new parser.\<close>

datatype parser_event = Push ustring | ActivationTimer | UnclosedTimer | Flush

fun parser_step :: "EnvelopeParser \<Rightarrow> parser_event \<Rightarrow> EnvelopeParser" where
  "parser_step p (Push data) = push data p"
| "parser_step p ActivationTimer = activation_fires p"
| "parser_step p UnclosedTimer = unclosed_fires p"
| "parser_step p Flush = flush p"

definition run_parser :: "parser_event list \<Rightarrow> EnvelopeParser" where
  "run_parser evs = foldl parser_step new_parser evs"

text \<open>While the parser captures, it is activated, its scan buffer is empty and its
  unclosed timer is pending.\<close>

definition capturing_inv :: "EnvelopeParser \<Rightarrow> bool" where
  "capturing_inv p =
     (state p = Scanning \<or>
      (scanBuffer p = [] \<and> unclosedTimer p = Some Pending \<and> activated p))"

text \<open>Before activation the parser is idle: not activated, scanning, no unclosed timer,
  nothing emitted.\<close>

definition idle :: "EnvelopeParser \<Rightarrow> bool" where
  "idle p = (\<not> activated p \<and> state p = Scanning \<and> unclosedTimer p = None \<and> emitted p = [])"

section \<open>fullStreamer.ts\<close>

text \<open>
  The reporting interface, as far as the streamer uses it. A call either returns
  (\<open>Inr\<close>) or throws (\<open>Inl\<close> with the error); \<open>postMessage\<close> returns the \<open>ts\<close> of the new
  message.
\<close>

record Reporter =
  postMessage :: "string \<Rightarrow> string \<Rightarrow> string option \<Rightarrow> string + string"
  updateMessage :: "string \<Rightarrow> string \<Rightarrow> string \<Rightarrow> string + unit"

datatype call =
    PostMessage string string "string option"
  | UpdateMessage string string string

text \<open>
  The fields of the class \<open>FullStreamer\<close> with its options, and two traces: \<open>outbound\<close>,
  the calls made on the reporter so far, and \<open>errorLog\<close>, the errors handed to
  \<open>logger.error\<close>. \<open>maxCharsPerMessage\<close> is a JavaScript number read from the
  environment: an \<^typ>\<open>int\<close> here.
\<close>

record FullStreamer =
  buffer :: string
  currentTs :: "string option"
  flushTimer :: "timer option"
  stopped :: bool
  channelId :: string
  threadTs :: string
  maxCharsPerMessage :: int
  outbound :: "call list"
  errorLog :: "string list"

text \<open>\<open>s.slice(0, e)\<close> and \<open>s.slice(b)\<close> for any integer: a negative index counts from
  the end and is clamped at the start of the string.\<close>

definition slice_to :: "int \<Rightarrow> string \<Rightarrow> string" where
  "slice_to e s = (if e < 0 then take (nat (int (length s) + e)) s else take (nat e) s)"

definition slice_from :: "int \<Rightarrow> string \<Rightarrow> string" where
  "slice_from b s = (if b < 0 then drop (nat (int (length s) + b)) s else drop (nat b) s)"

text \<open>The literal texts of the streamer. A glyph beyond Latin-1 is written by its name
  in brackets.\<close>

definition fence :: "string \<Rightarrow> string" where
  "fence body = ''```'' @ [char_of (10::nat)] @ body @ [char_of (10::nat)] @ ''```''"

definition RUNNING_TEXT :: string where
  "RUNNING_TEXT = ''[hourglass] Running[ellipsis]''"

definition MORE_TEXT :: string where
  "MORE_TEXT = ''[hourglass] [ellipsis]''"

function show_nat :: "nat \<Rightarrow> string" where
  "show_nat n = (if n < 10 then [char_of (48 + n)] else show_nat (n div 10) @ [char_of (48 + n mod 10)])"
  by pat_completeness auto
termination
  by (relation "measure id") auto

declare show_nat.simps [simp del]

definition show_int :: "int \<Rightarrow> string" where
  "show_int i = (if i < 0 then ''-'' @ show_nat (nat (- i)) else show_nat (nat i))"

text \<open>A string is truthy when it is neither \<open>null\<close> nor empty.\<close>

definition truthy :: "string option \<Rightarrow> bool" where
  "truthy v = (case v of None \<Rightarrow> False | Some x \<Rightarrow> x \<noteq> [])"

definition new_streamer :: "string \<Rightarrow> string \<Rightarrow> int \<Rightarrow> FullStreamer" where
  "new_streamer ch th mx = \<lparr> buffer = [], currentTs = None, flushTimer = None,
     stopped = False, channelId = ch, threadTs = th, maxCharsPerMessage = mx,
     outbound = [], errorLog = [] \<rparr>"

text \<open>\<open>start()\<close>: the second component is the error the call throws, if any.\<close>

definition start :: "Reporter \<Rightarrow> FullStreamer \<Rightarrow> FullStreamer \<times> string option" where
  "start rep s =
     (let s1 = s\<lparr>outbound := outbound s @ [PostMessage (channelId s) RUNNING_TEXT (Some (threadTs s))]\<rparr>
      in case postMessage rep (channelId s) RUNNING_TEXT (Some (threadTs s)) of
           Inl err \<Rightarrow> (s1, Some err)
         | Inr ts \<Rightarrow> (s1\<lparr>currentTs := Some ts, flushTimer := Some Pending\<rparr>, None))"

text \<open>\<open>push(data)\<close> of the streamer.\<close>

definition push_stream :: "string \<Rightarrow> FullStreamer \<Rightarrow> FullStreamer" where
  "push_stream data s = (if stopped s then s else s\<lparr>buffer := buffer s @ stripAnsi data\<rparr>)"

text \<open>\<open>finish(exitCode)\<close>: the second component is the error the call throws, if any;
  the buffer is cleared only when the update returned.\<close>

definition finish :: "Reporter \<Rightarrow> int \<Rightarrow> FullStreamer \<Rightarrow> FullStreamer \<times> string option" where
  "finish rep exitCode s =
     (let s1 = s\<lparr>stopped := True, flushTimer := map_option clearTimeout (flushTimer s)\<rparr>;
          status = (if exitCode = 0 then ''[check mark]'' else ''[cross mark]'');
          code = (if trim (buffer s1) \<noteq> []
                  then fence (trim (buffer s1)) @ [char_of (10::nat)] else []);
          body = code @ status @ '' Exited with code '' @ show_int exitCode
      in if truthy (currentTs s1) then
           (let s2 = s1\<lparr>outbound := outbound s1 @ [UpdateMessage (channelId s1) (the (currentTs s1)) body]\<rparr>
            in case updateMessage rep (channelId s1) (the (currentTs s1)) body of
                 Inl err \<Rightarrow> (s2, Some err)
               | Inr _ \<Rightarrow> (s2\<lparr>buffer := []\<rparr>, None))
         else (s1\<lparr>buffer := []\<rparr>, None))"

text \<open>
  \<open>flush()\<close>, one tick of the flush interval. The whole body after the guard is inside
  \<open>try\<close>/\<open>catch\<close>: an error of the reporter is logged and the call returns. In the split
  branch the buffer is cut before the first call on the reporter. The tick is taken as
  one step: a chunk pushed while the tick awaits the reporter is appended to the buffer
  the tick has already cut, as if it had arrived after the tick.
\<close>

definition flush_tick :: "Reporter \<Rightarrow> FullStreamer \<Rightarrow> FullStreamer" where
  "flush_tick rep s =
     (if buffer s = [] \<or> \<not> truthy (currentTs s) \<or> stopped s then s
      else if int (length (buffer s)) > maxCharsPerMessage s then
        (let chunk = slice_to (maxCharsPerMessage s) (buffer s);
             s1 = s\<lparr>buffer := slice_from (maxCharsPerMessage s) (buffer s),
                    outbound := outbound s @ [UpdateMessage (channelId s) (the (currentTs s)) (fence chunk)]\<rparr>
         in case updateMessage rep (channelId s) (the (currentTs s)) (fence chunk) of
              Inl err \<Rightarrow> s1\<lparr>errorLog := errorLog s1 @ [err]\<rparr>
            | Inr _ \<Rightarrow>
                (let s2 = s1\<lparr>outbound := outbound s1 @ [PostMessage (channelId s) MORE_TEXT (Some (threadTs s))]\<rparr>
                 in case postMessage rep (channelId s) MORE_TEXT (Some (threadTs s)) of
                      Inl err \<Rightarrow> s2\<lparr>errorLog := errorLog s2 @ [err]\<rparr>
                    | Inr ts \<Rightarrow> s2\<lparr>currentTs := Some ts\<rparr>))
      else
        (let s1 = s\<lparr>outbound := outbound s @ [UpdateMessage (channelId s) (the (currentTs s)) (fence (buffer s))]\<rparr>
         in case updateMessage rep (channelId s) (the (currentTs s)) (fence (buffer s)) of
              Inl err \<Rightarrow> s1\<lparr>errorLog := errorLog s1 @ [err]\<rparr>
            | Inr _ \<Rightarrow> s1))"

text \<open>What can happen to a streamer between \<open>start\<close> and the end of the session: a chunk
  arrives, or the flush interval ticks.\<close>

datatype stream_event = Chunk string | Tick

fun stream_step :: "Reporter \<Rightarrow> FullStreamer \<Rightarrow> stream_event \<Rightarrow> FullStreamer" where
  "stream_step rep s (Chunk data) = push_stream data s"
| "stream_step rep s Tick = flush_tick rep s"

definition run_stream :: "Reporter \<Rightarrow> stream_event list \<Rightarrow> FullStreamer \<Rightarrow> FullStreamer" where
  "run_stream rep evs s = foldl (stream_step rep) s evs"

text \<open>Two reporters for concrete runs: one whose calls all return, one whose calls all
  throw.\<close>

definition ok_reporter :: Reporter where
  "ok_reporter = \<lparr> postMessage = (\<lambda>ch body th. Inr ''1700000001.000200''),
                   updateMessage = (\<lambda>ch ts body. Inr ()) \<rparr>"

definition failing_reporter :: Reporter where
  "failing_reporter = \<lparr> postMessage = (\<lambda>ch body th. Inl ''slack_webapi_platform_error''),
                        updateMessage = (\<lambda>ch ts body. Inl ''slack_webapi_platform_error'') \<rparr>"

text \<open>A streamer after \<open>start\<close>, with six buffered characters and a ceiling of four.\<close>

definition running_streamer :: FullStreamer where
  "running_streamer = (new_streamer ''C0ACQMYN1C7'' ''1700000000.000100'' 4)
     \<lparr> buffer := ''abcdef'', currentTs := Some ''1700000000.000200'',
       flushTimer := Some Pending \<rparr>"

section \<open>session.ts: the deterministic session identifier\<close>

unbundle bit_operations_syntax

definition NAMESPACE_UUID :: string where
  "NAMESPACE_UUID = ''6ba7b810-9dad-11d1-80b4-00c04fd430c8''"

text \<open>\<open>s.substring(a, b)\<close> for \<open>a \<le> b\<close>, the only way the source calls it.\<close>

definition substring :: "nat \<Rightarrow> nat \<Rightarrow> string \<Rightarrow> string" where
  "substring a b s = take (b - a) (drop a s)"

definition hex_value :: "char \<Rightarrow> nat option" where
  "hex_value c =
     (if in_range 48 57 c then Some (of_char c - 48)
      else if in_range 97 102 c then Some (of_char c - 87)
      else if in_range 65 70 c then Some (of_char c - 55)
      else None)"

text \<open>\<open>parseInt(s, 16)\<close> on a string that starts with hexadecimal digits or with a
  character that is none (no sign, no white space, no \<open>0x\<close>, as in a hexadecimal
  digest): the value of the longest prefix of digits, \<open>None\<close> for \<open>NaN\<close>.\<close>

definition parseInt16 :: "string \<Rightarrow> nat option" where
  "parseInt16 s =
     (if takeWhile (\<lambda>c. hex_value c \<noteq> None) s = [] then None
      else Some (foldl (\<lambda>acc c. 16 * acc + the (hex_value c)) 0
                   (takeWhile (\<lambda>c. hex_value c \<noteq> None) s)))"

definition hex_char :: "nat \<Rightarrow> char" where
  "hex_char d = ''0123456789abcdef'' ! d"

text \<open>\<open>n.toString(16)\<close> for a non-negative integer.\<close>

function toString16 :: "nat \<Rightarrow> string" where
  "toString16 n = (if n < 16 then [hex_char n] else toString16 (n div 16) @ [hex_char (n mod 16)])"
  by pat_completeness auto
termination
  by (relation "measure id") auto

declare toString16.simps [simp del]

definition padStart :: "nat \<Rightarrow> char \<Rightarrow> string \<Rightarrow> string" where
  "padStart n c s = replicate (n - length s) c @ s"

fun join :: "string \<Rightarrow> string list \<Rightarrow> string" where
  "join sep [] = []"
| "join sep [x] = x"
| "join sep (x # y # ys) = x @ sep @ join sep (y # ys)"

text \<open>
  \<open>stringToUuid(input)\<close>. The SHA-1 digest comes from Node's \<open>crypto\<close> module, not from
  this repository: \<open>sha1_hex\<close> stands for
  \<open>createHash('sha1').update(a).update(b).digest('hex')\<close> as a function of \<open>a + b\<close>.
  A bitwise operator reads \<open>NaN\<close> as 0.
\<close>

definition stringToUuid :: "(string \<Rightarrow> string) \<Rightarrow> string \<Rightarrow> string" where
  "stringToUuid sha1_hex input =
     (let hash = sha1_hex (filter (\<lambda>c. c \<noteq> CHR ''-'') NAMESPACE_UUID @ input)
      in join ''-''
           [substring 0 8 hash,
            substring 8 12 hash,
            ''5'' @ substring 13 16 hash,
            padStart 2 (CHR ''0'')
              (toString16 (((case parseInt16 (substring 16 18 hash) of None \<Rightarrow> 0 | Some v \<Rightarrow> v)
                            AND 63) OR 128))
              @ substring 18 20 hash,
            substring 20 32 hash])"

text \<open>What a hexadecimal SHA-1 digest is: forty lower-case hexadecimal digits.\<close>

definition is_lower_hex :: "char \<Rightarrow> bool" where
  "is_lower_hex c = (in_range 48 57 c \<or> in_range 97 102 c)"

definition hex_digest :: "string \<Rightarrow> bool" where
  "hex_digest h = (length h = 40 \<and> list_all is_lower_hex h)"

text \<open>The shape of a UUID of version 5 with the variant bits 10, in the words of the
  claim: groups of 8, 4, 4, 4 and 12 lower-case hexadecimal digits between hyphens, the
  third starting with 5, the fourth with 8, 9, a or b.\<close>

definition uuid_v5_shape :: "string \<Rightarrow> bool" where
  "uuid_v5_shape u =
     (length u = 36
      \<and> list_all is_lower_hex (substring 0 8 u) \<and> u ! 8 = CHR ''-''
      \<and> list_all is_lower_hex (substring 9 13 u) \<and> u ! 13 = CHR ''-''
      \<and> list_all is_lower_hex (substring 14 18 u) \<and> u ! 14 = CHR ''5'' \<and> u ! 18 = CHR ''-''
      \<and> list_all is_lower_hex (substring 19 23 u) \<and> u ! 19 \<in> set ''89ab'' \<and> u ! 23 = CHR ''-''
      \<and> list_all is_lower_hex (substring 24 36 u))"

text \<open>A stand-in digest for concrete runs: the SHA-1 of \<open>test\<close>, whatever the input.\<close>

definition sample_digest :: "string \<Rightarrow> string" where
  "sample_digest x = ''a94a8fe5ccb19ba61c4c0873d391e987982fbbd3''"

section \<open>runner.ts and commands/router.ts: session continuation\<close>

datatype SessionMode = Interactive | OneShot

text \<open>\<open>CommandConfig\<close>, the optional fields as options.\<close>

record CommandConfig =
  prefix :: string
  binary :: string
  args :: "string list option"
  mode :: SessionMode
  envelope :: bool
  description :: string
  timeout :: "bool option"
  promptFlag :: "string option"
  sessionFlag :: "string option"
  sessionIdFlag :: "string option"
  resumeFlag :: "string option"

text \<open>\<open>SessionSpawnOptions\<close>.\<close>

record SessionSpawnOptions =
  o_channelId :: string
  o_threadTs :: string
  o_command :: string
  o_config :: CommandConfig
  o_sessionId :: "string option"
  o_isContinuation :: "bool option"

record ThreadBinding =
  b_prefix :: string
  b_sessionId :: string
  b_channelId :: string

text \<open>The continuation id of \<open>spawn\<close>:
  \<open>options.sessionId ?? (cmdConfig.sessionIdFlag ? stringToUuid(slackSessionId) : slackSessionId)\<close>.
  The same expression computes \<open>bindingSessionId\<close>.\<close>

definition slackSessionId :: "SessionSpawnOptions \<Rightarrow> string" where
  "slackSessionId opts = ''slack-'' @ o_channelId opts @ ''-'' @ o_threadTs opts"

definition continuationId :: "(string \<Rightarrow> string) \<Rightarrow> SessionSpawnOptions \<Rightarrow> string" where
  "continuationId sha1_hex opts =
     (case o_sessionId opts of
        Some sid \<Rightarrow> sid
      | None \<Rightarrow>
          if truthy (sessionIdFlag (o_config opts))
          then stringToUuid sha1_hex (slackSessionId opts)
          else slackSessionId opts)"

text \<open>\<open>finalCommand\<close>: the envelope instructions are prepended for a one-shot command
  in envelope mode when the prompt text is not empty.\<close>

definition finalCommand :: "string \<Rightarrow> SessionSpawnOptions \<Rightarrow> string" where
  "finalCommand promptText opts =
     (if mode (o_config opts) = OneShot \<and> envelope (o_config opts) \<and> promptText \<noteq> []
      then promptText @ [char_of (10::nat), char_of (10::nat)] @ o_command opts
      else o_command opts)"

text \<open>The session flag and id that \<open>spawn\<close> pushes on \<open>spawnArgs\<close> for a one-shot command.\<close>

definition sessionArgs :: "(string \<Rightarrow> string) \<Rightarrow> SessionSpawnOptions \<Rightarrow> string list" where
  "sessionArgs sha1_hex opts =
     (if truthy (sessionFlag (o_config opts))
      then [the (sessionFlag (o_config opts)), continuationId sha1_hex opts]
      else if truthy (sessionIdFlag (o_config opts)) then
        (if o_isContinuation opts = Some True \<and> truthy (resumeFlag (o_config opts))
         then [the (resumeFlag (o_config opts)), continuationId sha1_hex opts]
         else [the (sessionIdFlag (o_config opts)), continuationId sha1_hex opts])
      else [])"

text \<open>\<open>spawnArgs\<close>, the arguments \<open>spawn\<close> hands to \<open>spawnProcess\<close>.\<close>

definition spawnArgs :: "string \<Rightarrow> (string \<Rightarrow> string) \<Rightarrow> SessionSpawnOptions \<Rightarrow> string list" where
  "spawnArgs promptText sha1_hex opts =
     (case mode (o_config opts) of
        OneShot \<Rightarrow>
          (case args (o_config opts) of None \<Rightarrow> [] | Some a \<Rightarrow> a)
          @ sessionArgs sha1_hex opts
          @ (if truthy (promptFlag (o_config opts))
             then [the (promptFlag (o_config opts)), finalCommand promptText opts]
             else [finalCommand promptText opts])
      | Interactive \<Rightarrow>
          (case args (o_config opts) of None \<Rightarrow> [] | Some a \<Rightarrow> a)
          @ (if truthy (sessionIdFlag (o_config opts))
             then [the (sessionIdFlag (o_config opts)),
                   stringToUuid sha1_hex (slackSessionId opts)]
             else []))"

text \<open>The thread bindings after a \<open>spawn\<close> whose process started: a command with a
  session flag registers (or overwrites) the binding of its thread, unless the spawn is a
  continuation. A \<open>spawn\<close> whose process does not start returns before this point.\<close>

definition bindingKey :: "string \<Rightarrow> string \<Rightarrow> string" where
  "bindingKey ch th = ch @ '':'' @ th"

definition registerBinding ::
  "(string \<Rightarrow> string) \<Rightarrow> SessionSpawnOptions \<Rightarrow> (string \<rightharpoonup> ThreadBinding) \<Rightarrow> (string \<rightharpoonup> ThreadBinding)" where
  "registerBinding sha1_hex opts bindings =
     (if (truthy (sessionFlag (o_config opts)) \<or> truthy (sessionIdFlag (o_config opts)))
         \<and> o_isContinuation opts \<noteq> Some True
      then bindings(bindingKey (o_channelId opts) (o_threadTs opts) \<mapsto>
             \<lparr>b_prefix = prefix (o_config opts),
              b_sessionId = continuationId sha1_hex opts,
              b_channelId = o_channelId opts\<rparr>)
      else bindings)"

text \<open>The options \<open>handleCli\<close> spawns with: a new thread rooted at the message \<open>ts\<close>.\<close>

definition cliOptions :: "string \<Rightarrow> string \<Rightarrow> string \<Rightarrow> CommandConfig \<Rightarrow> SessionSpawnOptions" where
  "cliOptions ch ts cmd cfg =
     \<lparr>o_channelId = ch, o_threadTs = ts, o_command = cmd, o_config = cfg,
      o_sessionId = None, o_isContinuation = None\<rparr>"

text \<open>Step 3 of \<open>handleMessage\<close>, reached once the channel and the user passed steps 1
  and 2: a message in a thread that has a binding, whose prefix is still configured,
  spawns a continuation with these options; \<open>None\<close> when the step falls through.\<close>

definition continuationOptions ::
  "CommandConfig list \<Rightarrow> (string \<rightharpoonup> ThreadBinding) \<Rightarrow> string \<Rightarrow> string option \<Rightarrow> string
     \<Rightarrow> SessionSpawnOptions option" where
  "continuationOptions commands bindings ch threadTs_opt msg_body =
     (if truthy threadTs_opt then
        (case bindings (bindingKey ch (the threadTs_opt)) of
           None \<Rightarrow> None
         | Some binding \<Rightarrow>
             (case find (\<lambda>c. prefix c = b_prefix binding) commands of
                None \<Rightarrow> None
              | Some cmdConfig \<Rightarrow>
                  Some \<lparr>o_channelId = ch, o_threadTs = the threadTs_opt, o_command = msg_body,
                        o_config = cmdConfig, o_sessionId = Some (b_sessionId binding),
                        o_isContinuation = Some True\<rparr>))
      else None)"

text \<open>Two command configurations for concrete runs: one with a single reusable session
  flag, one with a create flag and a resume flag (the one of the README).\<close>

definition kimi_config :: CommandConfig where
  "kimi_config = \<lparr>prefix = ''kimi'', binary = ''kimi'', args = Some [''--quiet''],
     mode = OneShot, envelope = True, description = ''Run Kimi Code'', timeout = None,
     promptFlag = Some ''-p'', sessionFlag = Some ''-S'', sessionIdFlag = None,
     resumeFlag = None\<rparr>"

definition claude_config :: CommandConfig where
  "claude_config = \<lparr>prefix = ''claude'', binary = ''claude'', args = Some [''--verbose''],
     mode = OneShot, envelope = True, description = ''Run Claude Code'', timeout = None,
     promptFlag = Some ''-p'', sessionFlag = None, sessionIdFlag = Some ''--session-id'',
     resumeFlag = Some ''--resume''\<rparr>"

section \<open>runner.ts: the end of a session\<close>

datatype SessionStatus = Running | Exited | TimedOut

text \<open>A \<open>Session\<close>, without its process handle, router and start time.\<close>

record Session =
  s_id :: string
  s_channelId :: string
  s_threadTs :: string
  s_messageTs :: "string option"
  s_mode :: SessionMode
  s_status :: SessionStatus
  s_exitCode :: "int option"
  s_timeoutHandle :: "timer option"

text \<open>What the end of a session does to the outside: the process is killed, the
  router is finished (which closes the log), the start message is updated into the
  completion notice, the session is deleted from the map.\<close>

datatype effect =
    Kill
  | RouterFinish int
  | CompletionNotice string int
  | MapRemoval string

text \<open>
  \<open>finalise\<close> is an \<open>async\<close> function: it runs up to \<open>await session.router.finish(exitCode)\<close>,
  later up to the \<open>await\<close> of the update of the start message (when the session has a
  \<open>messageTs\<close>), and later to its end. Between two of these parts other callbacks can
  run. A call that has not reached its end is kept with the point where it waits.
\<close>

datatype stage = AwaitRouterFinish | AwaitNotice

record FinaliseCall =
  f_threadTs :: string
  f_exitCode :: int
  f_messageTs :: "string option"
  f_stage :: stage

text \<open>
  The session manager and the closure of one \<open>spawn\<close>: the map \<open>sessions\<close>, the variable
  \<open>exited\<close> and the \<open>threadTs\<close> the two callbacks of that spawn close over, the calls of
  \<open>finalise\<close> that are waiting, and the trace of effects.
\<close>

record Runner =
  sessions :: "string \<rightharpoonup> Session"
  exited :: bool
  spawn_threadTs :: string
  inflight :: "FinaliseCall list"
  effects :: "effect list"

text \<open>\<open>finalise(threadTs, exitCode)\<close> up to its first \<open>await\<close>.\<close>

definition finalise :: "string \<Rightarrow> int \<Rightarrow> Runner \<Rightarrow> Runner" where
  "finalise th exitCode r =
     (case sessions r th of
        None \<Rightarrow> r
      | Some s \<Rightarrow>
          r\<lparr>sessions := (sessions r)(th \<mapsto>
                 s\<lparr>s_timeoutHandle := map_option clearTimeout (s_timeoutHandle s),
                   s_status := (if exitCode = - 1 then TimedOut else Exited),
                   s_exitCode := Some exitCode\<rparr>),
            effects := effects r @ [RouterFinish exitCode],
            inflight := inflight r @
              [\<lparr>f_threadTs = th, f_exitCode = exitCode, f_messageTs = s_messageTs s,
                f_stage = AwaitRouterFinish\<rparr>]\<rparr>)"

text \<open>The end of \<open>finalise\<close>: \<open>this.sessions.delete(threadTs)\<close>.\<close>

definition finalise_end :: "nat \<Rightarrow> FinaliseCall \<Rightarrow> Runner \<Rightarrow> Runner" where
  "finalise_end k c r =
     r\<lparr>sessions := (sessions r)(f_threadTs c := None),
       effects := effects r @ [MapRemoval (f_threadTs c)],
       inflight := take k (inflight r) @ drop (Suc k) (inflight r)\<rparr>"

text \<open>The waiting call number \<open>k\<close> goes on to its next \<open>await\<close> or to its end.\<close>

definition resume :: "nat \<Rightarrow> Runner \<Rightarrow> Runner" where
  "resume k r =
     (if k < length (inflight r) then
        (case f_stage (inflight r ! k) of
           AwaitRouterFinish \<Rightarrow>
             if truthy (f_messageTs (inflight r ! k))
             then r\<lparr>effects := effects r @
                      [CompletionNotice (the (f_messageTs (inflight r ! k)))
                         (f_exitCode (inflight r ! k))],
                    inflight := (inflight r)[k := (inflight r ! k)\<lparr>f_stage := AwaitNotice\<rparr>]\<rparr>
             else finalise_end k (inflight r ! k) r
         | AwaitNotice \<Rightarrow> finalise_end k (inflight r ! k) r)
      else r)"

text \<open>The callback given to \<open>handle.onExit\<close>.\<close>

definition onExit :: "int \<Rightarrow> Runner \<Rightarrow> Runner" where
  "onExit exitCode r =
     (if exited r then r
      else finalise (spawn_threadTs r) exitCode (r\<lparr>exited := True\<rparr>))"

text \<open>The callback of the session timer; only a pending timer fires. The timer is the
  one stored in the session of this spawn.\<close>

definition onTimeout :: "Runner \<Rightarrow> Runner" where
  "onTimeout r =
     (case sessions r (spawn_threadTs r) of
        None \<Rightarrow> r
      | Some s \<Rightarrow>
          if s_timeoutHandle s = Some Pending
          then finalise (spawn_threadTs r) (- 1)
                 (r\<lparr>sessions := (sessions r)(spawn_threadTs r \<mapsto> s\<lparr>s_timeoutHandle := Some Fired\<rparr>),
                    effects := effects r @ [Kill]\<rparr>)
          else r)"

datatype runner_event = ExitFired int | TimeoutFired | Resume nat

fun runner_step :: "Runner \<Rightarrow> runner_event \<Rightarrow> Runner" where
  "runner_step r (ExitFired exitCode) = onExit exitCode r"
| "runner_step r TimeoutFired = onTimeout r"
| "runner_step r (Resume k) = resume k r"

definition run_runner :: "runner_event list \<Rightarrow> Runner \<Rightarrow> Runner" where
  "run_runner evs r = foldl runner_step r evs"

text \<open>The state when \<open>spawn\<close> returns: the session is registered and running, its timer
  is pending (or absent when the command disables the timeout), the process has not
  exited.\<close>

definition spawned :: "Session \<Rightarrow> Runner" where
  "spawned s = \<lparr>sessions = [s_threadTs s \<mapsto> s], exited = False,
     spawn_threadTs = s_threadTs s, inflight = [], effects = []\<rparr>"

definition sample_session :: Session where
  "sample_session = \<lparr>s_id = ''session_20260101_120000_abc123'', s_channelId = ''C0ACQMYN1C7'',
     s_threadTs = ''1700000000.000100'', s_messageTs = Some ''1700000000.000300'',
     s_mode = Interactive, s_status = Running, s_exitCode = None,
     s_timeoutHandle = Some Pending\<rparr>"

text \<open>How often the router was finished.\<close>

definition finish_count :: "Runner \<Rightarrow> nat" where
  "finish_count r = length (filter (\<lambda>e. case e of RouterFinish c \<Rightarrow> True | _ \<Rightarrow> False) (effects r))"

text \<open>Once the exit callback has run and the timer is not pending, no event starts
  \<open>finalise\<close> again.\<close>

definition settled :: "Runner \<Rightarrow> bool" where
  "settled r =
     (exited r \<and>
      (case sessions r (spawn_threadTs r) of
         None \<Rightarrow> True
       | Some s \<Rightarrow> s_timeoutHandle s \<noteq> Some Pending))"

chapter \<open>Properties\<close>

section \<open>Activation gate of the parser\<close>

lemma idle_step: "idle p \<Longrightarrow> ev \<noteq> ActivationTimer \<Longrightarrow> idle (parser_step p ev)"
  by (cases ev)
     (simp_all add: idle_def push_def unclosed_fires_def flush_def reset_def)

lemma idle_run: "ActivationTimer \<notin> set evs \<Longrightarrow> idle (run_parser evs)"
proof (induction evs rule: rev_induct)
  case Nil
  show ?case by (simp add: run_parser_def idle_def new_parser_def)
next
  case (snoc ev evs)
  then have "idle (run_parser evs)" and "ev \<noteq> ActivationTimer" by auto
  then have "idle (parser_step (run_parser evs) ev)" by (rule idle_step)
  then show ?case by (simp add: run_parser_def)
qed

lemma push_not_activated: "\<not> activated p \<Longrightarrow> push data p = p"
  by (simp add: push_def)

lemma feed_not_activated: "\<not> activated p \<Longrightarrow> feed chunks p = p"
  by (induction chunks arbitrary: p) (simp_all add: feed_def push_not_activated)

text \<open>
  C7. A chunk pushed while the parser is not yet activated leaves the parser as it was,
  so it emits nothing, whatever the chunk holds. A new parser fed any chunks has emitted
  no envelope; and no sequence of pushes, firings of the unclosed timer and calls of
  \<open>flush\<close> makes a new parser emit an envelope as long as the activation timer has not
  fired.
\<close>

theorem push_before_activation_emits_nothing:
  "(\<not> activated p \<longrightarrow> push data p = p \<and> emitted (push data p) = emitted p)
   \<and> emitted (feed chunks new_parser) = []
   \<and> (ActivationTimer \<notin> set evs \<longrightarrow> emitted (run_parser evs) = [])"
proof -
  have "\<not> activated new_parser" by (simp add: new_parser_def)
  then have "feed chunks new_parser = new_parser" by (rule feed_not_activated)
  then have "emitted (feed chunks new_parser) = []" by (simp add: new_parser_def)
  moreover have "ActivationTimer \<notin> set evs \<longrightarrow> emitted (run_parser evs) = []"
    using idle_run [of evs] by (simp add: idle_def)
  ultimately show ?thesis by (simp add: push_not_activated)
qed

theorem push_before_activation_emits_nothing_witness:
  "\<not> activated new_parser
   \<and> push (str ''<<<SLACK:done>>>hi<<<END_SLACK>>>'') new_parser = new_parser
   \<and> emitted (push (str ''<<<SLACK:done>>>hi<<<END_SLACK>>>'') new_parser) = []
   \<and> emitted (feed [str ''<<<SLACK:done>>>hi'', str ''<<<END_SLACK>>>''] new_parser) = []
   \<and> ActivationTimer \<notin> set [Push (str ''<<<SLACK:done>>>hi''), UnclosedTimer, Push (str ''<<<END_SLACK>>>''), Flush]
   \<and> emitted (run_parser [Push (str ''<<<SLACK:done>>>hi''), UnclosedTimer, Push (str ''<<<END_SLACK>>>''), Flush]) = []"
  using push_before_activation_emits_nothing
          [of new_parser "str ''<<<SLACK:done>>>hi<<<END_SLACK>>>''" "[str ''<<<SLACK:done>>>hi'', str ''<<<END_SLACK>>>'']"
              "[Push (str ''<<<SLACK:done>>>hi''), UnclosedTimer, Push (str ''<<<END_SLACK>>>''), Flush]"]
  by (simp add: new_parser_def)

section \<open>The streamer\<close>

lemma slice_to_from: "slice_to m s @ slice_from m s = s"
  by (simp add: slice_to_def slice_from_def)

lemma stopped_finish: "stopped (fst (finish rep code s))"
  by (simp add: finish_def Let_def split: sum.splits)

lemma push_stream_stopped: "stopped s \<Longrightarrow> push_stream data s = s"
  by (simp add: push_stream_def)

lemma flush_tick_stopped: "stopped s \<Longrightarrow> flush_tick rep s = s"
  by (simp add: flush_tick_def)

lemma run_stream_stopped: "stopped s \<Longrightarrow> run_stream rep evs s = s"
proof (induction evs arbitrary: s)
  case Nil
  then show ?case by (simp add: run_stream_def)
next
  case (Cons e evs)
  have "stream_step rep s e = s"
    using Cons.prems by (cases e) (simp_all add: push_stream_stopped flush_tick_stopped)
  with Cons show ?case by (simp add: run_stream_def)
qed

text \<open>
  C10. Once \<open>finish\<close> has been invoked (whether its last update returned or threw), the
  streamer is stopped; a later \<open>push\<close> returns the streamer as it is: same buffer, same
  current message, no call on the reporter; a later flush tick does the same; and so
  does any sequence of pushes and ticks.
\<close>

theorem finished_streamer_is_inert:
  "stopped (fst (finish rep code s))
   \<and> push_stream data (fst (finish rep code s)) = fst (finish rep code s)
   \<and> flush_tick rep' (fst (finish rep code s)) = fst (finish rep code s)
   \<and> run_stream rep' evs (fst (finish rep code s)) = fst (finish rep code s)"
  by (simp add: stopped_finish push_stream_stopped flush_tick_stopped run_stream_stopped)

theorem finished_streamer_is_inert_witness:
  "buffer (push_stream ''late output'' (fst (finish ok_reporter 0 running_streamer))) = []
   \<and> currentTs (push_stream ''late output'' (fst (finish ok_reporter 0 running_streamer)))
       = Some ''1700000000.000200''
   \<and> length (outbound (run_stream failing_reporter [Chunk ''late'', Tick, Chunk ''r'', Tick]
        (fst (finish ok_reporter 0 running_streamer)))) = 1"
  using finished_streamer_is_inert
          [of ok_reporter 0 running_streamer "''late output''" failing_reporter
              "[Chunk ''late'', Tick, Chunk ''r'', Tick]"]
  by (simp add: finish_def running_streamer_def new_streamer_def ok_reporter_def truthy_def
        Let_def)

text \<open>
  C6. A tick of a running streamer (started, not stopped) whose buffer is longer than a
  ceiling \<open>0 \<le> maxCharsPerMessage\<close>, where both calls on the reporter return: the tick
  makes exactly two calls, an update of the current message with the fenced first
  \<open>maxCharsPerMessage\<close> characters of the buffer, then the post of one new message, whose
  \<open>ts\<close> becomes the current target; the buffer keeps the rest, and slice and rest
  together are the buffer as it was.
\<close>

theorem flush_tick_splits_once:
  assumes "\<not> stopped s" and "currentTs s = Some ts" and "ts \<noteq> []"
    and "0 \<le> maxCharsPerMessage s"
    and "int (length (buffer s)) > maxCharsPerMessage s"
    and "updateMessage rep (channelId s) ts
           (fence (take (nat (maxCharsPerMessage s)) (buffer s))) = Inr ()"
    and "postMessage rep (channelId s) MORE_TEXT (Some (threadTs s)) = Inr ts'"
  shows "outbound (flush_tick rep s) = outbound s @
           [UpdateMessage (channelId s) ts (fence (take (nat (maxCharsPerMessage s)) (buffer s))),
            PostMessage (channelId s) MORE_TEXT (Some (threadTs s))]
         \<and> currentTs (flush_tick rep s) = Some ts'
         \<and> buffer (flush_tick rep s) = drop (nat (maxCharsPerMessage s)) (buffer s)
         \<and> length (take (nat (maxCharsPerMessage s)) (buffer s)) = nat (maxCharsPerMessage s)
         \<and> take (nat (maxCharsPerMessage s)) (buffer s) @ buffer (flush_tick rep s) = buffer s
         \<and> errorLog (flush_tick rep s) = errorLog s"
proof -
  have ne: "buffer s \<noteq> []" using assms(4,5) by auto
  have len: "nat (maxCharsPerMessage s) \<le> length (buffer s)" using assms(4,5) by linarith
  show ?thesis
    using assms ne len
    by (simp add: flush_tick_def truthy_def slice_to_def slice_from_def Let_def min_absorb2)
qed

theorem flush_tick_splits_once_witness:
  "outbound (flush_tick ok_reporter running_streamer) =
     [UpdateMessage ''C0ACQMYN1C7'' ''1700000000.000200'' (fence ''abcd''),
      PostMessage ''C0ACQMYN1C7'' MORE_TEXT (Some ''1700000000.000100'')]
   \<and> currentTs (flush_tick ok_reporter running_streamer) = Some ''1700000001.000200''
   \<and> buffer (flush_tick ok_reporter running_streamer) = ''ef''"
  using flush_tick_splits_once
          [of running_streamer "''1700000000.000200''" ok_reporter "''1700000001.000200''"]
  by (simp add: running_streamer_def new_streamer_def ok_reporter_def)

text \<open>A tick that does not split leaves the buffer as it is, whatever the reporter
  answers: there a failed update is sent again, with all the content, by the next tick.\<close>

lemma flush_tick_unsplit_keeps_buffer:
  "int (length (buffer s)) \<le> maxCharsPerMessage s \<Longrightarrow> buffer (flush_tick rep s) = buffer s"
  by (simp add: flush_tick_def Let_def split: sum.splits)

text \<open>
  C3. A tick whose update fails in the split branch: the error is logged and the call
  returns, but the buffer was cut before the call, so the first four characters, sent in
  the failed update only, are gone from the buffer; the next tick sends the rest alone.
\<close>

theorem flush_tick_failure_drops_slice:
  "buffer (flush_tick failing_reporter running_streamer) = ''ef''
   \<and> errorLog (flush_tick failing_reporter running_streamer) = [''slack_webapi_platform_error'']
   \<and> currentTs (flush_tick failing_reporter running_streamer) = Some ''1700000000.000200''
   \<and> outbound (flush_tick ok_reporter (flush_tick failing_reporter running_streamer)) =
       [UpdateMessage ''C0ACQMYN1C7'' ''1700000000.000200'' (fence ''abcd''),
        UpdateMessage ''C0ACQMYN1C7'' ''1700000000.000200'' (fence ''ef'')]"
  by (simp add: flush_tick_def running_streamer_def new_streamer_def failing_reporter_def
        ok_reporter_def truthy_def slice_to_def slice_from_def Let_def)

theorem flush_tick_failure_drops_slice_witness:
  "buffer (flush_tick failing_reporter running_streamer) \<noteq> buffer running_streamer
   \<and> length (buffer (flush_tick failing_reporter running_streamer)) = 2"
  using flush_tick_failure_drops_slice by (simp add: running_streamer_def)

section \<open>The shape of the session identifier\<close>

lemma and_63: "(n::nat) AND 63 = n mod 64"
proof -
  have "(63::nat) = mask 6" by (simp add: mask_eq_exp_minus_1)
  then have "n AND 63 = take_bit 6 n" by (simp add: take_bit_eq_mask)
  then show ?thesis by (simp add: take_bit_eq_mod)
qed

lemma or_128: "(x::nat) < 64 \<Longrightarrow> x OR 128 = x + 128"
proof -
  assume x: "x < 64"
  have b7: "\<not> bit x 7" using x by (simp add: bit_iff_odd)
  have "x AND 128 = 0" using b7 and_exp_eq_0_iff_not_bit [of x 7] by simp
  then show ?thesis by (simp add: disjunctive_add_eq_or)
qed

lemma variant_byte: "((n::nat) AND 63) OR 128 = n mod 64 + 128"
  by (simp add: and_63 or_128)

lemma hex_char_lower: "d < 16 \<Longrightarrow> is_lower_hex (hex_char d)"
proof -
  assume "d < 16"
  then have "d = 0 \<or> d = 1 \<or> d = 2 \<or> d = 3 \<or> d = 4 \<or> d = 5 \<or> d = 6 \<or> d = 7 \<or> d = 8
      \<or> d = 9 \<or> d = 10 \<or> d = 11 \<or> d = 12 \<or> d = 13 \<or> d = 14 \<or> d = 15" by arith
  then show ?thesis
    by (elim disjE) (simp_all add: hex_char_def is_lower_hex_def in_range_def)
qed

lemma variant_digits:
  assumes "128 \<le> v" and "v < 192"
  shows "toString16 v = [hex_char (v div 16), hex_char (v mod 16)]"
    and "hex_char (v div 16) \<in> set ''89ab''"
proof -
  have d: "v div 16 = 8 \<or> v div 16 = 9 \<or> v div 16 = 10 \<or> v div 16 = 11" using assms by arith
  then have "v div 16 < 16" by arith
  then have "toString16 (v div 16) = [hex_char (v div 16)]" by (simp add: toString16.simps)
  moreover have "\<not> v < 16" using assms by simp
  ultimately show "toString16 v = [hex_char (v div 16), hex_char (v mod 16)]"
    by (subst toString16.simps) simp
  show "hex_char (v div 16) \<in> set ''89ab''"
    using d by (elim disjE) (simp_all add: hex_char_def)
qed

lemma list_all_substring: "list_all P xs \<Longrightarrow> list_all P (substring a b xs)"
  unfolding substring_def list_all_iff by (meson in_set_dropD in_set_takeD)

lemma length_substring: "b \<le> length xs \<Longrightarrow> length (substring a b xs) = b - a"
  by (simp add: substring_def)

lemma groups_shape:
  assumes "length A = 8" "length B = 4" "length C = 4" "length D = 4" "length E = 12"
    and "list_all is_lower_hex A" "list_all is_lower_hex B" "list_all is_lower_hex C"
    and "list_all is_lower_hex D" "list_all is_lower_hex E"
    and "C ! 0 = CHR ''5''" and "D ! 0 \<in> set ''89ab''"
  shows "uuid_v5_shape (A @ ''-'' @ B @ ''-'' @ C @ ''-'' @ D @ ''-'' @ E)"
  using assms by (simp add: uuid_v5_shape_def substring_def nth_append)

text \<open>
  C9. \<open>stringToUuid\<close> is a function of its input alone, and for every input its result
  has the shape of a version-5 UUID, whatever forty lower-case hexadecimal digits the
  SHA-1 digest is made of.
\<close>

theorem stringToUuid_shape:
  assumes "\<forall>x. hex_digest (sha1_hex x)"
  shows "uuid_v5_shape (stringToUuid sha1_hex input)
         \<and> (a = b \<longrightarrow> stringToUuid sha1_hex a = stringToUuid sha1_hex b)"
proof -
  define h where "h = sha1_hex (filter (\<lambda>c. c \<noteq> CHR ''-'') NAMESPACE_UUID @ input)"
  define v where "v = ((case parseInt16 (substring 16 18 h) of None \<Rightarrow> 0 | Some v \<Rightarrow> v) AND 63) OR (128::nat)"
  have hd: "length h = 40" and hx: "list_all is_lower_hex h"
    using assms by (simp_all add: hex_digest_def h_def)
  have vr: "128 \<le> v" "v < 192" by (simp_all add: v_def variant_byte)
  have ts: "toString16 v = [hex_char (v div 16), hex_char (v mod 16)]"
    and first: "hex_char (v div 16) \<in> set ''89ab''"
    using variant_digits [OF vr] by simp_all
  have lo: "is_lower_hex (hex_char (v div 16))" "is_lower_hex (hex_char (v mod 16))"
    using vr by (simp_all add: hex_char_lower)
  have u: "stringToUuid sha1_hex input =
        substring 0 8 h @ ''-'' @ substring 8 12 h @ ''-'' @ (''5'' @ substring 13 16 h) @ ''-''
        @ ([hex_char (v div 16), hex_char (v mod 16)] @ substring 18 20 h) @ ''-'' @ substring 20 32 h"
    by (simp add: stringToUuid_def Let_def h_def [symmetric] v_def [symmetric] ts padStart_def)
  have five: "is_lower_hex (CHR ''5'')" by (simp add: is_lower_hex_def in_range_def)
  have "uuid_v5_shape (stringToUuid sha1_hex input)"
    unfolding u
    using first
    by (intro groups_shape)
       (simp_all add: length_substring hd list_all_substring hx lo five)
  then show ?thesis by simp
qed

theorem stringToUuid_shape_witness:
  "(\<forall>x. hex_digest (sample_digest x))
   \<and> uuid_v5_shape (stringToUuid sample_digest ''slack-C0ACQMYN1C7-1700000000.000100'')
   \<and> stringToUuid sample_digest ''slack-C0ACQMYN1C7-1700000000.000100''
       = ''a94a8fe5-ccb1-5ba6-9c4c-0873d391e987''"
proof -
  have d: "\<forall>x. hex_digest (sample_digest x)"
    by (simp add: hex_digest_def sample_digest_def is_lower_hex_def in_range_def)
  have "stringToUuid sample_digest ''slack-C0ACQMYN1C7-1700000000.000100''
       = ''a94a8fe5-ccb1-5ba6-9c4c-0873d391e987''"
    by code_simp
  with d stringToUuid_shape [OF d, of "''slack-C0ACQMYN1C7-1700000000.000100''"]
  show ?thesis by simp
qed

section \<open>Continuation of a session\<close>

lemma continuationOptions_after_first_spawn:
  assumes "truthy (sessionFlag cfg) \<or> truthy (sessionIdFlag cfg)"
    and "find (\<lambda>c. prefix c = prefix cfg) commands = Some cfg"
    and "th \<noteq> []"
  shows "continuationOptions commands
           (registerBinding sha1_hex (cliOptions ch th cmd1 cfg) bindings) ch (Some th) cmd2
         = Some \<lparr>o_channelId = ch, o_threadTs = th, o_command = cmd2, o_config = cfg,
                 o_sessionId = Some (continuationId sha1_hex (cliOptions ch th cmd1 cfg)),
                 o_isContinuation = Some True\<rparr>"
  using assms
  by (simp add: continuationOptions_def registerBinding_def cliOptions_def truthy_def)

text \<open>
  C8. A one-shot command \<open>cfg\<close>, the configuration the router finds for its prefix, is
  spawned by \<open>handleCli\<close> on channel \<open>ch\<close> and thread \<open>th\<close>, its process starts, and a later
  message in the same thread reaches step 3 of \<open>handleMessage\<close>. Then that message spawns
  a continuation, and
  \<^item> with a reusable session flag, both spawns pass that flag followed by one and the
    same id;
  \<^item> with no reusable flag but a create flag and a resume flag, the first spawn passes
    the create flag and the continuation the resume flag, both followed by the UUID
    derived from \<open>slack-<ch>-<th>\<close>.
\<close>

theorem continuation_reuses_session_id:
  assumes "mode cfg = OneShot"
    and "find (\<lambda>c. prefix c = prefix cfg) commands = Some cfg"
    and "th \<noteq> []"
    and "o1 = cliOptions ch th cmd1 cfg"
    and "base = (case args cfg of None \<Rightarrow> [] | Some a \<Rightarrow> a)"
  shows "(truthy (sessionFlag cfg) \<longrightarrow>
            (\<exists>o2. continuationOptions commands (registerBinding sha1_hex o1 bindings) ch (Some th) cmd2
                    = Some o2
               \<and> o_isContinuation o2 = Some True
               \<and> take (length base + 2) (spawnArgs promptText sha1_hex o1)
                   = base @ [the (sessionFlag cfg), continuationId sha1_hex o1]
               \<and> take (length base + 2) (spawnArgs promptText sha1_hex o2)
                   = base @ [the (sessionFlag cfg), continuationId sha1_hex o1]))
         \<and> (\<not> truthy (sessionFlag cfg) \<and> truthy (sessionIdFlag cfg) \<and> truthy (resumeFlag cfg) \<longrightarrow>
            (\<exists>o2. continuationOptions commands (registerBinding sha1_hex o1 bindings) ch (Some th) cmd2
                    = Some o2
               \<and> o_isContinuation o2 = Some True
               \<and> take (length base + 2) (spawnArgs promptText sha1_hex o1)
                   = base @ [the (sessionIdFlag cfg),
                             stringToUuid sha1_hex (''slack-'' @ ch @ ''-'' @ th)]
               \<and> take (length base + 2) (spawnArgs promptText sha1_hex o2)
                   = base @ [the (resumeFlag cfg),
                             stringToUuid sha1_hex (''slack-'' @ ch @ ''-'' @ th)]))"
proof (intro conjI impI)
  assume f: "truthy (sessionFlag cfg)"
  then have c: "continuationOptions commands (registerBinding sha1_hex o1 bindings) ch (Some th) cmd2
      = Some \<lparr>o_channelId = ch, o_threadTs = th, o_command = cmd2, o_config = cfg,
              o_sessionId = Some (continuationId sha1_hex o1), o_isContinuation = Some True\<rparr>"
    unfolding assms(4) using assms(2,3) by (intro continuationOptions_after_first_spawn) simp_all
  show "\<exists>o2. continuationOptions commands (registerBinding sha1_hex o1 bindings) ch (Some th) cmd2
                    = Some o2
               \<and> o_isContinuation o2 = Some True
               \<and> take (length base + 2) (spawnArgs promptText sha1_hex o1)
                   = base @ [the (sessionFlag cfg), continuationId sha1_hex o1]
               \<and> take (length base + 2) (spawnArgs promptText sha1_hex o2)
                   = base @ [the (sessionFlag cfg), continuationId sha1_hex o1]"
    unfolding c using f assms(1,4,5)
    by (simp add: spawnArgs_def sessionArgs_def cliOptions_def continuationId_def)
next
  assume "\<not> truthy (sessionFlag cfg) \<and> truthy (sessionIdFlag cfg) \<and> truthy (resumeFlag cfg)"
  then have f: "\<not> truthy (sessionFlag cfg)" "truthy (sessionIdFlag cfg)" "truthy (resumeFlag cfg)"
    by simp_all
  then have c: "continuationOptions commands (registerBinding sha1_hex o1 bindings) ch (Some th) cmd2
      = Some \<lparr>o_channelId = ch, o_threadTs = th, o_command = cmd2, o_config = cfg,
              o_sessionId = Some (continuationId sha1_hex o1), o_isContinuation = Some True\<rparr>"
    unfolding assms(4) using assms(2,3) by (intro continuationOptions_after_first_spawn) simp_all
  show "\<exists>o2. continuationOptions commands (registerBinding sha1_hex o1 bindings) ch (Some th) cmd2
                    = Some o2
               \<and> o_isContinuation o2 = Some True
               \<and> take (length base + 2) (spawnArgs promptText sha1_hex o1)
                   = base @ [the (sessionIdFlag cfg),
                             stringToUuid sha1_hex (''slack-'' @ ch @ ''-'' @ th)]
               \<and> take (length base + 2) (spawnArgs promptText sha1_hex o2)
                   = base @ [the (resumeFlag cfg),
                             stringToUuid sha1_hex (''slack-'' @ ch @ ''-'' @ th)]"
    unfolding c using f assms(1,4,5)
    by (simp add: spawnArgs_def sessionArgs_def cliOptions_def continuationId_def
          slackSessionId_def)
qed

theorem continuation_reuses_session_id_witness:
  "spawnArgs [] sample_digest (cliOptions ''C0ACQMYN1C7'' ''1700000000.000100'' ''hello'' kimi_config)
     = [''--quiet'', ''-S'', ''slack-C0ACQMYN1C7-1700000000.000100'', ''-p'', ''hello'']
   \<and> (\<exists>o2. continuationOptions [kimi_config, claude_config]
               (registerBinding sample_digest
                  (cliOptions ''C0ACQMYN1C7'' ''1700000000.000100'' ''hello'' kimi_config) Map.empty)
               ''C0ACQMYN1C7'' (Some ''1700000000.000100'') ''and then'' = Some o2
          \<and> spawnArgs [] sample_digest o2
              = [''--quiet'', ''-S'', ''slack-C0ACQMYN1C7-1700000000.000100'', ''-p'', ''and then''])
   \<and> spawnArgs [] sample_digest (cliOptions ''C0ACQMYN1C7'' ''1700000000.000100'' ''hello'' claude_config)
     = [''--verbose'', ''--session-id'', ''a94a8fe5-ccb1-5ba6-9c4c-0873d391e987'', ''-p'', ''hello'']
   \<and> (\<exists>o2. continuationOptions [kimi_config, claude_config]
               (registerBinding sample_digest
                  (cliOptions ''C0ACQMYN1C7'' ''1700000000.000100'' ''hello'' claude_config) Map.empty)
               ''C0ACQMYN1C7'' (Some ''1700000000.000100'') ''and then'' = Some o2
          \<and> spawnArgs [] sample_digest o2
              = [''--verbose'', ''--resume'', ''a94a8fe5-ccb1-5ba6-9c4c-0873d391e987'', ''-p'', ''and then''])"
proof -
  have u: "stringToUuid sample_digest ''slack-C0ACQMYN1C7-1700000000.000100''
       = ''a94a8fe5-ccb1-5ba6-9c4c-0873d391e987''"
    by code_simp
  have k: "mode kimi_config = OneShot"
    "find (\<lambda>c. prefix c = prefix kimi_config) [kimi_config, claude_config] = Some kimi_config"
    "truthy (sessionFlag kimi_config)"
    by (simp_all add: kimi_config_def truthy_def)
  have c: "mode claude_config = OneShot"
    "find (\<lambda>c. prefix c = prefix claude_config) [kimi_config, claude_config] = Some claude_config"
    "\<not> truthy (sessionFlag claude_config)" "truthy (sessionIdFlag claude_config)"
    "truthy (resumeFlag claude_config)"
    by (simp_all add: kimi_config_def claude_config_def truthy_def)
  have n: "''1700000000.000100'' \<noteq> []" by simp
  note a = continuation_reuses_session_id [OF k(1) k(2) n refl refl,
      of sample_digest "''C0ACQMYN1C7''" "''hello''" Map.empty "''and then''" "[]"]
  note b = continuation_reuses_session_id [OF c(1) c(2) n refl refl,
      of sample_digest "''C0ACQMYN1C7''" "''hello''" Map.empty "''and then''" "[]"]
  from a k(3) obtain o2 where o2: "continuationOptions [kimi_config, claude_config]
               (registerBinding sample_digest
                  (cliOptions ''C0ACQMYN1C7'' ''1700000000.000100'' ''hello'' kimi_config) Map.empty)
               ''C0ACQMYN1C7'' (Some ''1700000000.000100'') ''and then'' = Some o2"
    by blast
  from b c(3,4,5) obtain o3 where o3: "continuationOptions [kimi_config, claude_config]
               (registerBinding sample_digest
                  (cliOptions ''C0ACQMYN1C7'' ''1700000000.000100'' ''hello'' claude_config) Map.empty)
               ''C0ACQMYN1C7'' (Some ''1700000000.000100'') ''and then'' = Some o3"
    by blast
  have o2': "o2 = \<lparr>o_channelId = ''C0ACQMYN1C7'', o_threadTs = ''1700000000.000100'',
       o_command = ''and then'', o_config = kimi_config,
       o_sessionId = Some ''slack-C0ACQMYN1C7-1700000000.000100'', o_isContinuation = Some True\<rparr>"
    using o2
    by (simp add: continuationOptions_def registerBinding_def cliOptions_def truthy_def
          bindingKey_def kimi_config_def claude_config_def continuationId_def slackSessionId_def)
  have o3': "o3 = \<lparr>o_channelId = ''C0ACQMYN1C7'', o_threadTs = ''1700000000.000100'',
       o_command = ''and then'', o_config = claude_config,
       o_sessionId = Some ''a94a8fe5-ccb1-5ba6-9c4c-0873d391e987'', o_isContinuation = Some True\<rparr>"
    using o3
    by (simp add: continuationOptions_def registerBinding_def cliOptions_def truthy_def
          bindingKey_def kimi_config_def claude_config_def continuationId_def slackSessionId_def u)
  have s1: "spawnArgs [] sample_digest (cliOptions ''C0ACQMYN1C7'' ''1700000000.000100'' ''hello'' kimi_config)
     = [''--quiet'', ''-S'', ''slack-C0ACQMYN1C7-1700000000.000100'', ''-p'', ''hello'']"
    by (simp add: spawnArgs_def sessionArgs_def cliOptions_def truthy_def kimi_config_def
          continuationId_def slackSessionId_def finalCommand_def)
  have s2: "spawnArgs [] sample_digest o2
     = [''--quiet'', ''-S'', ''slack-C0ACQMYN1C7-1700000000.000100'', ''-p'', ''and then'']"
    unfolding o2'
    by (simp add: spawnArgs_def sessionArgs_def truthy_def kimi_config_def
          continuationId_def finalCommand_def)
  have s3: "spawnArgs [] sample_digest (cliOptions ''C0ACQMYN1C7'' ''1700000000.000100'' ''hello'' claude_config)
     = [''--verbose'', ''--session-id'', ''a94a8fe5-ccb1-5ba6-9c4c-0873d391e987'', ''-p'', ''hello'']"
    by (simp add: spawnArgs_def sessionArgs_def cliOptions_def truthy_def claude_config_def
          continuationId_def slackSessionId_def finalCommand_def u)
  have s4: "spawnArgs [] sample_digest o3
     = [''--verbose'', ''--resume'', ''a94a8fe5-ccb1-5ba6-9c4c-0873d391e987'', ''-p'', ''and then'']"
    unfolding o3'
    by (simp add: spawnArgs_def sessionArgs_def truthy_def claude_config_def
          continuationId_def finalCommand_def)
  show ?thesis using s1 s2 s3 s4 o2 o3 by blast
qed

section \<open>Lower-casing and length\<close>

lemmas lit = str_def cu_def

declare lit [simp]

lemma toLowerCase_Nil: "toLowerCase [] = []"
  by (simp add: toLowerCase_def)

lemma toLowerCase_Cons: "toLowerCase (c # s) = lower_unit c @ toLowerCase s"
  by (simp add: toLowerCase_def)

lemma toLowerCase_append: "toLowerCase (a @ b) = toLowerCase a @ toLowerCase b"
  by (simp add: toLowerCase_def)

lemma length_lower_unit: "length (lower_unit c) = (if c = 304 then 2 else 1)"
  by (simp add: lower_unit_def)

lemma length_toLowerCase_ge: "length s \<le> length (toLowerCase s)"
  by (induction s) (simp_all add: toLowerCase_Nil toLowerCase_Cons length_lower_unit)

text \<open>The lowered copy has the length of the text exactly when the text holds no U+0130.\<close>

lemma lower_stable_iff: "lower_stable s \<longleftrightarrow> 304 \<notin> set s"
proof (induction s)
  case Nil
  show ?case by (simp add: lower_stable_def toLowerCase_Nil)
next
  case (Cons c s)
  have ge: "length s \<le> length (toLowerCase s)" by (rule length_toLowerCase_ge)
  show ?case
  proof (cases "c = 304")
    case True
    with ge show ?thesis
      by (simp add: lower_stable_def toLowerCase_Cons length_lower_unit)
  next
    case False
    with Cons show ?thesis
      by (simp add: lower_stable_def toLowerCase_Cons length_lower_unit)
  qed
qed

lemma lower_stable_append: "lower_stable (a @ b) \<longleftrightarrow> lower_stable a \<and> lower_stable b"
  by (simp add: lower_stable_iff)

lemma lower_stable_drop: "lower_stable s \<Longrightarrow> lower_stable (drop n s)"
  unfolding lower_stable_iff using set_drop_subset [of n s] by blast

lemma lower_stable_concat: "lower_stable (concat xs) \<longleftrightarrow> (\<forall>x\<in>set xs. lower_stable x)"
  by (simp add: lower_stable_iff)

section \<open>The parser and chunk boundaries\<close>

lemma open_prefix_shape:
  "list_all2 ci_eq (str ''<<<slack'') t \<Longrightarrow>
     \<exists>a b c d e. t = [cu CHR ''<'', cu CHR ''<'', cu CHR ''<'', a, b, c, d, e]
        \<and> a \<noteq> cu CHR ''<'' \<and> b \<noteq> cu CHR ''<'' \<and> c \<noteq> cu CHR ''<'' \<and> d \<noteq> cu CHR ''<'' \<and> e \<noteq> cu CHR ''<''"
  by (auto simp: list_all2_Cons1 ci_eq_def between_def lit)

lemma is_word_not_lt: "is_word c \<Longrightarrow> c \<noteq> cu CHR ''<''"
  by (auto simp: is_word_def between_def lit)

lemma take3_gt: "take 3 xs = str ''>>>'' \<Longrightarrow> \<exists>ys. xs = str ''>>>'' @ ys"
  by (metis append_take_drop_id)

text \<open>The matched text: three \<open><\<close>, then no further \<open><\<close>.\<close>

lemma match_open_here_shape:
  assumes "match_open_here s = Some (len, grp)"
  shows "take 3 s = str ''<<<'' \<and> cu CHR ''<'' \<notin> set (drop 3 (take len s)) \<and> 11 \<le> len \<and> len \<le> length s"
proof -
  from assms have l8: "8 \<le> length s" and p: "list_all2 ci_eq (str ''<<<slack'') (take 8 s)"
    by (auto simp: match_open_here_def split: if_splits)
  from open_prefix_shape [OF p] obtain a b c d e where
    t8: "take 8 s = [cu CHR ''<'', cu CHR ''<'', cu CHR ''<'', a, b, c, d, e]"
    and ne: "a \<noteq> cu CHR ''<''" "b \<noteq> cu CHR ''<''" "c \<noteq> cu CHR ''<''" "d \<noteq> cu CHR ''<''" "e \<noteq> cu CHR ''<''"
    by blast
  obtain x r where dr: "drop 8 s = x # r"
    using assms by (auto simp: match_open_here_def split: if_splits list.splits)
  have s: "s = [cu CHR ''<'', cu CHR ''<'', cu CHR ''<'', a, b, c, d, e] @ x # r"
    using t8 dr by (metis append_take_drop_id)
  have b: "11 \<le> len \<and> len \<le> length s" using assms by (rule match_open_here_len)
  show ?thesis
  proof (cases "x = cu CHR '':''")
    case True
    with assms dr have w: "take 3 (dropWhile is_word r) = str ''>>>''"
      and len: "len = 12 + length (takeWhile is_word r)"
      by (auto simp: match_open_here_def split: if_splits)
    from take3_gt [OF w] obtain ys where ys: "dropWhile is_word r = str ''>>>'' @ ys" by blast
    have r: "r = takeWhile is_word r @ str ''>>>'' @ ys"
      using ys by (metis takeWhile_dropWhile_id)
    define M where "M = [cu CHR ''<'', cu CHR ''<'', cu CHR ''<'', a, b, c, d, e] @ x # takeWhile is_word r @ str ''>>>''"
    have "s = M @ ys" by (subst s, subst r) (simp add: M_def)
    moreover have "length M = len" by (simp add: M_def len lit)
    ultimately have "take len s = M" by simp
    then have "take len s = [cu CHR ''<'', cu CHR ''<'', cu CHR ''<'', a, b, c, d, e] @ x # takeWhile is_word r @ str ''>>>''"
      by (simp add: M_def)
    then have "set (drop 3 (take len s)) = {a, b, c, d, e, x, cu CHR ''>''} \<union> set (takeWhile is_word r)"
      by auto
    moreover have "cu CHR ''<'' \<notin> set (takeWhile is_word r)"
      using is_word_not_lt set_takeWhileD by metis
    ultimately show ?thesis using ne True b s by auto
  next
    case False
    with assms dr have w: "take 3 (x # r) = str ''>>>''" and len: "len = 11"
      by (auto simp: match_open_here_def split: if_splits)
    from take3_gt [OF w] obtain ys where ys: "x # r = str ''>>>'' @ ys" by blast
    define M where "M = [cu CHR ''<'', cu CHR ''<'', cu CHR ''<'', a, b, c, d, e] @ str ''>>>''"
    have "s = M @ ys" by (subst s, subst ys) (simp add: M_def)
    moreover have "length M = len" by (simp add: M_def len lit)
    ultimately have "take len s = M" by simp
    then have "take len s = [cu CHR ''<'', cu CHR ''<'', cu CHR ''<'', a, b, c, d, e] @ str ''>>>''"
      by (simp add: M_def)
    then have "set (drop 3 (take len s)) = {a, b, c, d, e, cu CHR ''>''}"
      by auto
    then show ?thesis using ne b s by auto
  qed
qed

lemma take_append_le: "n \<le> length xs \<Longrightarrow> take n (xs @ ys) = take n xs"
  by simp

lemma takeWhile_short_append:
  assumes "length (takeWhile P (r @ z)) < length r"
  shows "takeWhile P (r @ z) = takeWhile P r \<and> dropWhile P (r @ z) = dropWhile P r @ z"
proof -
  have "\<exists>x\<in>set r. \<not> P x"
  proof (rule ccontr)
    assume "\<not> (\<exists>x\<in>set r. \<not> P x)"
    then have "takeWhile P (r @ z) = r @ takeWhile P z" by (simp add: takeWhile_append2)
    with assms show False by simp
  qed
  then show ?thesis by (auto simp: takeWhile_append1 dropWhile_append1)
qed

text \<open>A match does not change when text is appended, and depends on the matched text
  only.\<close>

lemma match_open_here_append:
  assumes "match_open_here s = Some (len, grp)"
  shows "match_open_here (s @ t) = Some (len, grp)"
proof -
  from assms have l8: "8 \<le> length s" and p: "list_all2 ci_eq (str ''<<<slack'') (take 8 s)"
    by (auto simp: match_open_here_def split: if_splits)
  obtain x r where dr: "drop 8 s = x # r"
    using assms by (auto simp: match_open_here_def split: if_splits list.splits)
  have dr': "drop 8 (s @ t) = x # (r @ t)" using l8 dr by simp
  have t8: "take 8 (s @ t) = take 8 s" using l8 by simp
  show ?thesis
  proof (cases "x = cu CHR '':''")
    case True
    with assms dr have w: "take 3 (dropWhile is_word r) = str ''>>>''"
      and ne: "takeWhile is_word r \<noteq> []"
      and len: "len = 12 + length (takeWhile is_word r)" and g: "grp = Some (takeWhile is_word r)"
      by (auto simp: match_open_here_def split: if_splits)
    from take3_gt [OF w] obtain ys where ys: "dropWhile is_word r = str ''>>>'' @ ys" by blast
    then have "dropWhile is_word r \<noteq> []" by (simp add: lit)
    then have ex: "\<exists>c\<in>set r. \<not> is_word c" by (simp add: dropWhile_eq_Nil_conv)
    then have tw: "takeWhile is_word (r @ t) = takeWhile is_word r"
      and dw: "dropWhile is_word (r @ t) = dropWhile is_word r @ t"
      by (auto simp: takeWhile_append1 dropWhile_append1)
    have "take 3 (dropWhile is_word (r @ t)) = str ''>>>''" by (simp add: dw ys)
    then show ?thesis
      using True l8 p ne len g
      by (simp add: match_open_here_def t8 dr' tw del: take_append drop_append)
  next
    case False
    with assms dr have w: "take 3 (x # r) = str ''>>>''" and len: "len = 11" and g: "grp = None"
      by (auto simp: match_open_here_def split: if_splits)
    from take3_gt [OF w] obtain ys where ys: "x # r = str ''>>>'' @ ys" by blast
    have "(x # r) @ t = (str ''>>>'' @ ys) @ t" using ys by simp
    then have "take 3 (x # (r @ t)) = str ''>>>''" by simp
    then show ?thesis
      using False l8 p len g
      by (simp add: match_open_here_def t8 dr' del: take_append drop_append)
  qed
qed

lemma match_open_here_local:
  assumes "match_open_here (y @ z) = Some (len, grp)" and "len \<le> length y"
  shows "match_open_here y = Some (len, grp)"
proof -
  have b: "11 \<le> len" using assms(1) match_open_here_len by blast
  then have l11: "11 \<le> length y" using assms(2) by simp
  from assms have p: "list_all2 ci_eq (str ''<<<slack'') (take 8 (y @ z))"
    by (auto simp: match_open_here_def split: if_splits)
  have t8: "take 8 (y @ z) = take 8 y" using l11 by simp
  obtain x r where dr: "drop 8 y = x # r"
    using l11 by (cases "drop 8 y") auto
  have ly: "length y = 9 + length r"
  proof -
    have "length (drop 8 y) = Suc (length r)" by (simp add: dr)
    then show ?thesis using l11 by simp
  qed
  have dr': "drop 8 (y @ z) = x # (r @ z)" using l11 dr by simp
  have l8': "8 \<le> length (y @ z)" using l11 by simp
  show ?thesis
  proof (cases "x = cu CHR '':''")
    case True
    with assms(1) have w: "take 3 (dropWhile is_word (r @ z)) = str ''>>>''"
      and ne: "takeWhile is_word (r @ z) \<noteq> []"
      and len: "len = 12 + length (takeWhile is_word (r @ z))"
      and g: "grp = Some (takeWhile is_word (r @ z))"
      unfolding match_open_here_def dr' by (auto split: if_splits)
    have "length (takeWhile is_word (r @ z)) < length r" using len assms(2) ly by simp
    from takeWhile_short_append [OF this]
    have tw: "takeWhile is_word (r @ z) = takeWhile is_word r"
      and dw: "dropWhile is_word (r @ z) = dropWhile is_word r @ z" by simp_all
    have "length (takeWhile is_word r) + length (dropWhile is_word r) = length r"
      by (metis length_append takeWhile_dropWhile_id)
    then have "3 \<le> length (dropWhile is_word r)" using len assms(2) ly tw by simp
    then have "take 3 (dropWhile is_word r) = str ''>>>''" using w dw by simp
    then show ?thesis
      using True l11 p ne len g tw
      by (simp add: match_open_here_def t8 dr)
  next
    case False
    with assms(1) have w: "take 3 (x # (r @ z)) = str ''>>>''" and len: "len = 11" and g: "grp = None"
      unfolding match_open_here_def dr' by (auto split: if_splits)
    have "3 \<le> length (x # r)" using ly l11 by simp
    then have "take 3 ((x # r) @ z) = take 3 (x # r)" by (rule take_append_le)
    then have "take 3 (x # r) = str ''>>>''" using w by (simp only: append_Cons)
    then show ?thesis
      using False l11 p len g
      by (simp add: match_open_here_def t8 dr)
  qed
qed

lemma exec_open_Cons_None:
  "match_open_here (c # cs) = None \<Longrightarrow> exec_open (c # cs) = map_option (shift 1) (exec_open cs)"
  by (cases "exec_open cs") (auto simp: shift_def)

lemma exec_open_skip:
  assumes "\<forall>j<k. match_open_here (drop j s) = None"
  shows "exec_open s = map_option (shift k) (exec_open (drop k s))"
  using assms
proof (induction k arbitrary: s)
  case 0
  show ?case by (cases "exec_open s") (auto simp: shift_def)
next
  case (Suc k)
  show ?case
  proof (cases s)
    case Nil
    then show ?thesis by simp
  next
    case (Cons c cs)
    have "match_open_here (c # cs) = None" using Suc.prems [rule_format, of 0] Cons by simp
    then have a: "exec_open s = map_option (shift 1) (exec_open cs)"
      unfolding Cons by (rule exec_open_Cons_None)
    have "\<forall>j<k. match_open_here (drop j cs) = None"
    proof (intro allI impI)
      fix j assume "j < k"
      then have "match_open_here (drop (Suc j) s) = None" using Suc.prems by simp
      then show "match_open_here (drop j cs) = None" using Cons by simp
    qed
    from Suc.IH [OF this] have b: "exec_open cs = map_option (shift k) (exec_open (drop k cs))" .
    show ?thesis
      unfolding a b using Cons
      by (cases "exec_open (drop k cs)") (auto simp: shift_def)
  qed
qed

lemma exec_open_None_iff:
  "exec_open s = None \<longleftrightarrow> (\<forall>j. match_open_here (drop j s) = None)"
proof (induction s)
  case Nil
  then show ?case by (simp add: match_open_here_def)
next
  case (Cons c cs)
  show ?case
  proof (cases "match_open_here (c # cs)")
    case None
    have "(\<forall>j. match_open_here (drop j (c # cs)) = None) \<longleftrightarrow> (\<forall>j. match_open_here (drop j cs) = None)"
    proof
      assume h: "\<forall>j. match_open_here (drop j (c # cs)) = None"
      show "\<forall>j. match_open_here (drop j cs) = None"
      proof
        fix j from h have "match_open_here (drop (Suc j) (c # cs)) = None" by blast
        then show "match_open_here (drop j cs) = None" by simp
      qed
    next
      assume h: "\<forall>j. match_open_here (drop j cs) = None"
      show "\<forall>j. match_open_here (drop j (c # cs)) = None"
      proof
        fix j show "match_open_here (drop j (c # cs)) = None"
          using None h by (cases j) simp_all
      qed
    qed
    with None Cons show ?thesis by simp
  next
    case (Some a)
    then have a: "exec_open (c # cs) \<noteq> None" by (auto split: prod.splits)
    have "match_open_here (drop 0 (c # cs)) \<noteq> None" using Some by simp
    then have b: "\<not> (\<forall>j. match_open_here (drop j (c # cs)) = None)" by (rule contrapos_nn) (rule spec)
    from a b show ?thesis by (simp only: simp_thms)
  qed
qed

lemma exec_open_Some_D:
  "exec_open s = Some (i, len, grp) \<Longrightarrow>
     match_open_here (drop i s) = Some (len, grp) \<and> (\<forall>j<i. match_open_here (drop j s) = None)"
proof (induction s arbitrary: i)
  case Nil
  then show ?case by simp
next
  case (Cons c cs)
  show ?case
  proof (cases "match_open_here (c # cs)")
    case None
    with Cons.prems obtain k where k: "exec_open cs = Some (k, len, grp)" and i: "i = Suc k"
      by auto
    from Cons.IH [OF k] have m: "match_open_here (drop k cs) = Some (len, grp)"
      and e: "\<forall>j<k. match_open_here (drop j cs) = None" by simp_all
    have "\<forall>j<i. match_open_here (drop j (c # cs)) = None"
    proof (intro allI impI)
      fix j assume "j < i"
      then show "match_open_here (drop j (c # cs)) = None"
        using None e i by (cases j) simp_all
    qed
    then show ?thesis using m i by simp
  next
    case (Some a)
    with Cons.prems show ?thesis by (auto split: prod.splits)
  qed
qed

lemma exec_open_Some_I:
  assumes "match_open_here (drop i s) = Some (len, grp)"
    and "\<forall>j<i. match_open_here (drop j s) = None"
  shows "exec_open s = Some (i, len, grp)"
proof -
  have ne: "drop i s \<noteq> []" using assms(1) by (auto simp: match_open_here_def)
  then obtain c cs where d: "drop i s = c # cs" by (cases "drop i s") auto
  have "exec_open (drop i s) = Some (0, len, grp)" using assms(1) d by simp
  with exec_open_skip [OF assms(2)] show ?thesis by (simp add: shift_def)
qed

text \<open>Two matches do not overlap.\<close>

lemma match_open_here_no_overlap:
  assumes "match_open_here s = Some (len, grp)" and "0 < d" and "d < len"
  shows "match_open_here (drop d s) = None"
proof (rule ccontr)
  assume "match_open_here (drop d s) \<noteq> None"
  then obtain l' g' where m: "match_open_here (drop d s) = Some (l', g')" by auto
  from match_open_here_shape [OF m] have t: "take 3 (drop d s) = str ''<<<''"
    and l': "11 \<le> l'" "l' \<le> length (drop d s)" by simp_all
  from match_open_here_shape [OF assms(1)]
  have no: "cu CHR ''<'' \<notin> set (drop 3 (take len s))" and len: "11 \<le> len" "len \<le> length s"
    by simp_all
  have ld: "d + 11 \<le> length s" using l' by simp
  obtain ys where ys: "drop d s = str ''<<<'' @ ys" using t by (metis append_take_drop_id)
  have n0: "drop d s ! 0 = cu CHR ''<''" "drop d s ! 1 = cu CHR ''<''" "drop d s ! 2 = cu CHR ''<''"
    unfolding ys by (simp_all add: lit)
  have at: "\<And>k. 3 \<le> k \<Longrightarrow> k < len \<Longrightarrow> s ! k \<noteq> cu CHR ''<''"
  proof -
    fix k assume k: "3 \<le> k" "k < len"
    have "drop 3 (take len s) ! (k - 3) = s ! k" using k len by simp
    moreover have "k - 3 < length (drop 3 (take len s))" using k len by simp
    ultimately have "s ! k \<in> set (drop 3 (take len s))"
      using nth_mem [of "k - 3" "drop 3 (take len s)"] by simp
    with no show "s ! k \<noteq> cu CHR ''<''" by auto
  qed
  have s0: "s ! d = cu CHR ''<''" "s ! (d + 1) = cu CHR ''<''" "s ! (d + 2) = cu CHR ''<''"
    using n0 ld by simp_all
  show False
  proof (cases "3 \<le> d")
    case True
    with at [of d] assms(3) s0 show False by simp
  next
    case False
    then have "d = 1 \<or> d = 2" using assms(2) by arith
    then have "s ! 3 = cu CHR ''<''" using s0 by (auto simp: numeral_3_eq_3)
    with at [of 3] len show False by simp
  qed
qed

lemma short_tags_iff:
  "short_tags s \<longleftrightarrow> (\<forall>j len grp. match_open_here (drop j s) = Some (len, grp) \<longrightarrow> len \<le> SCAN_TAIL + 1)"
proof
  assume h: "short_tags s"
  show "\<forall>j len grp. match_open_here (drop j s) = Some (len, grp) \<longrightarrow> len \<le> SCAN_TAIL + 1"
  proof (intro allI impI)
    fix j len grp assume m: "match_open_here (drop j s) = Some (len, grp)"
    then have "drop j s \<noteq> []" by (auto simp: match_open_here_def)
    then have "j < length s" by simp
    then have "j \<in> set [0..<length s]" by simp
    with h have "case match_open_here (drop j s) of None \<Rightarrow> True
        | Some (len, grp) \<Rightarrow> len \<le> SCAN_TAIL + 1"
      unfolding short_tags_def list_all_iff by blast
    with m show "len \<le> SCAN_TAIL + 1" by simp
  qed
next
  assume "\<forall>j len grp. match_open_here (drop j s) = Some (len, grp) \<longrightarrow> len \<le> SCAN_TAIL + 1"
  then show "short_tags s"
    by (auto simp: short_tags_def list_all_iff split: option.splits)
qed

lemma short_tags_drop: "short_tags s \<Longrightarrow> short_tags (drop n s)"
  unfolding short_tags_iff by (metis drop_drop)

lemma short_tags_prefix:
  assumes "short_tags (x @ y)"
  shows "short_tags x"
  unfolding short_tags_iff
proof (intro allI impI)
  fix j len grp assume m: "match_open_here (drop j x) = Some (len, grp)"
  then have "drop j x \<noteq> []" by (auto simp: match_open_here_def)
  then have j: "j \<le> length x" by simp
  from match_open_here_append [OF m] have "match_open_here (drop j (x @ y)) = Some (len, grp)"
    using j by simp
  with assms show "len \<le> SCAN_TAIL + 1" unfolding short_tags_iff by blast
qed

lemma exec_open_append:
  assumes "exec_open x = Some (i, len, grp)"
  shows "exec_open (x @ b) = Some (i, len, grp)"
proof -
  from exec_open_Some_D [OF assms] have m: "match_open_here (drop i x) = Some (len, grp)"
    and e: "\<forall>j<i. match_open_here (drop j x) = None" by simp_all
  from exec_open_bounds [OF assms] have bd: "11 \<le> len" "i + len \<le> length x" by simp_all
  have m': "match_open_here (drop i (x @ b)) = Some (len, grp)"
    using match_open_here_append [OF m, of b] bd by simp
  have "\<forall>j<i. match_open_here (drop j (x @ b)) = None"
  proof (intro allI impI, rule ccontr)
    fix j assume j: "j < i" and "match_open_here (drop j (x @ b)) \<noteq> None"
    then obtain l' g' where mj: "match_open_here (drop j (x @ b)) = Some (l', g')" by auto
    have dj: "drop j (x @ b) = drop j x @ b" using j bd by simp
    show False
    proof (cases "l' \<le> length (drop j x)")
      case True
      from match_open_here_local [OF mj [unfolded dj] True] e j show False by simp
    next
      case False
      then have "i - j < l'" using bd j by simp
      moreover have "0 < i - j" using j by simp
      ultimately have "match_open_here (drop (i - j) (drop j (x @ b))) = None"
        using match_open_here_no_overlap [OF mj] by blast
      moreover have "drop (i - j) (drop j (x @ b)) = drop i (x @ b)"
        using j by (simp only: drop_drop) simp
      ultimately show False using m' by simp
    qed
  qed
  with m' show ?thesis by (rule exec_open_Some_I)
qed

lemma exec_open_trim:
  assumes "exec_open x = None" and "short_tags (x @ b)" and "k + SCAN_TAIL = length x"
  shows "exec_open (x @ b) = map_option (shift k) (exec_open (drop k x @ b))"
proof -
  have "\<forall>j<k. match_open_here (drop j (x @ b)) = None"
  proof (intro allI impI, rule ccontr)
    fix j assume j: "j < k" and "match_open_here (drop j (x @ b)) \<noteq> None"
    then obtain l' g' where mj: "match_open_here (drop j (x @ b)) = Some (l', g')" by auto
    have dj: "drop j (x @ b) = drop j x @ b" using j assms(3) by simp
    have "l' \<le> SCAN_TAIL + 1" using assms(2) mj unfolding short_tags_iff by blast
    then have "l' \<le> length (drop j x)" using j assms(3) by simp
    from match_open_here_local [OF mj [unfolded dj] this]
    show False using assms(1) unfolding exec_open_None_iff by simp
  qed
  from exec_open_skip [OF this] show ?thesis using assms(3) by simp
qed

lemma indexOf_append:
  "indexOf n h = Some i \<Longrightarrow> indexOf n (h @ t) = Some i"
proof (induction h arbitrary: i)
  case Nil
  then have "n = []" and "i = 0" by (simp_all split: if_splits)
  then show ?case by (cases t) simp_all
next
  case (Cons c cs)
  from indexOf_bounds [OF Cons.prems] have le: "length n \<le> length (c # cs)" by simp
  then have t: "take (length n) ((c # cs) @ t) = take (length n) (c # cs)"
    by (rule take_append_le)
  show ?case
  proof (cases "take (length n) (c # cs) = n")
    case True
    with Cons.prems have "i = 0" by simp
    with True t show ?thesis by (simp del: take_append)
  next
    case False
    with Cons.prems obtain j where j: "indexOf n cs = Some j" and i: "i = Suc j" by auto
    from Cons.IH [OF j] have "indexOf n (cs @ t) = Some j" .
    with False t i show ?thesis by (simp del: take_append)
  qed
qed

lemma tryScanOpen_empty: "tryScanOpen (p\<lparr>scanBuffer := []\<rparr>) = p\<lparr>scanBuffer := []\<rparr>"
  by (subst tryScanOpen.simps) (simp add: SCAN_TAIL_def)

lemma slice_last_trim:
  assumes "SCAN_TAIL < length x"
  shows "(if SCAN_TAIL < length (slice_last SCAN_TAIL x @ b)
          then slice_last SCAN_TAIL (slice_last SCAN_TAIL x @ b)
          else slice_last SCAN_TAIL x @ b)
         = slice_last SCAN_TAIL (x @ b)"
  using assms by (cases "b = []") (simp_all add: slice_last_def add.commute)

text \<open>Scanning a buffer that was trimmed after a failed scan finds what scanning the
  whole buffer finds, when no open marker is longer than \<open>SCAN_TAIL + 1\<close>.\<close>

lemma tryScanOpen_trim:
  assumes "exec_open x = None" and "short_tags (x @ b)" and "SCAN_TAIL < length x"
  shows "tryScanOpen (p\<lparr>scanBuffer := slice_last SCAN_TAIL x @ b\<rparr>)
         = tryScanOpen (p\<lparr>scanBuffer := x @ b\<rparr>)"
proof -
  define k where "k = length x - SCAN_TAIL"
  have k: "k + SCAN_TAIL = length x" using assms(3) by (simp add: k_def)
  have t: "slice_last SCAN_TAIL x = drop k x" by (simp add: slice_last_def k_def)
  from exec_open_trim [OF assms(1,2) k]
  have e: "exec_open (x @ b) = map_option (shift k) (exec_open (drop k x @ b))" .
  have d: "drop k x @ b = drop k (x @ b)" using k by simp
  show ?thesis
  proof (cases "exec_open (drop k x @ b)")
    case None
    then have n: "exec_open (x @ b) = None" using e by simp
    have "tryScanOpen (p\<lparr>scanBuffer := drop k x @ b\<rparr>)
        = p\<lparr>scanBuffer := slice_last SCAN_TAIL (x @ b)\<rparr>"
      by (subst tryScanOpen.simps)
         (simp add: None slice_last_trim [OF assms(3), of b, unfolded t, symmetric])
    moreover have "tryScanOpen (p\<lparr>scanBuffer := x @ b\<rparr>)
        = p\<lparr>scanBuffer := slice_last SCAN_TAIL (x @ b)\<rparr>"
      using assms(3) by (subst tryScanOpen.simps) (simp add: n)
    ultimately show ?thesis unfolding t by simp
  next
    case (Some a)
    obtain i len grp where a: "a = (i, len, grp)" by (cases a) auto
    have e': "exec_open (x @ b) = Some (i + k, len, grp)" using e Some a by (simp add: shift_def)
    have dd: "drop (i + k + len) (x @ b) = drop (i + len) (drop k x @ b)"
      by (simp only: d drop_drop) (simp add: ac_simps)
    have "tryScanOpen (p\<lparr>scanBuffer := drop k x @ b\<rparr>)
        = tryClose (p\<lparr>currentType := resolve_type grp,
             captureBuffer := drop (i + len) (drop k x @ b), scanBuffer := [],
             state := Capturing, unclosedTimer := Some Pending\<rparr>)"
      by (subst tryScanOpen.simps) (simp add: Some a del: drop_append)
    moreover have "tryScanOpen (p\<lparr>scanBuffer := x @ b\<rparr>)
        = tryClose (p\<lparr>currentType := resolve_type grp,
             captureBuffer := drop (i + len) (drop k x @ b), scanBuffer := [],
             state := Capturing, unclosedTimer := Some Pending\<rparr>)"
      by (subst tryScanOpen.simps) (simp add: e' dd del: drop_append)
    ultimately show ?thesis unfolding t by simp
  qed
qed

lemma push_after_scan_close:
  shows "state p = Scanning \<Longrightarrow> activated p \<Longrightarrow> short_tags (scanBuffer p @ b) \<Longrightarrow>
           lower_stable (scanBuffer p @ b) \<Longrightarrow>
           push b (tryScanOpen p) = tryScanOpen (p\<lparr>scanBuffer := scanBuffer p @ b\<rparr>)"
    and "state q = Capturing \<Longrightarrow> activated q \<Longrightarrow> short_tags (captureBuffer q @ b) \<Longrightarrow>
           lower_stable (captureBuffer q @ b) \<Longrightarrow>
           push b (tryClose q) = tryClose (q\<lparr>captureBuffer := captureBuffer q @ b\<rparr>)"
proof (induction p and q rule: tryScanOpen_tryClose.induct)
  case (1 p)
  show ?case
  proof (cases "exec_open (scanBuffer p)")
    case None
    show ?thesis
    proof (cases "SCAN_TAIL < length (scanBuffer p)")
      case True
      have "tryScanOpen p = p\<lparr>scanBuffer := slice_last SCAN_TAIL (scanBuffer p)\<rparr>"
        using None True by (subst tryScanOpen.simps) simp
      then have "push b (tryScanOpen p)
          = tryScanOpen (p\<lparr>scanBuffer := slice_last SCAN_TAIL (scanBuffer p) @ b\<rparr>)"
        using "1.prems" by (simp add: push_def)
      also have "\<dots> = tryScanOpen (p\<lparr>scanBuffer := scanBuffer p @ b\<rparr>)"
        using None "1.prems"(3) True by (rule tryScanOpen_trim)
      finally show ?thesis .
    next
      case False
      have "tryScanOpen p = p" using None False by (subst tryScanOpen.simps) simp
      then show ?thesis using "1.prems" by (simp add: push_def)
    qed
  next
    case (Some a)
    obtain i len grp where a: "a = (i, len, grp)" by (cases a) auto
    have e: "exec_open (scanBuffer p) = Some (i, len, grp)" using Some a by simp
    from exec_open_bounds [OF e] have bd: "i + len \<le> length (scanBuffer p)" by simp
    define p1 where "p1 = p\<lparr>currentType := resolve_type grp,
        captureBuffer := drop (i + len) (scanBuffer p), scanBuffer := [],
        state := Capturing, unclosedTimer := Some Pending\<rparr>"
    have l: "tryScanOpen p = tryClose p1"
      using e by (subst tryScanOpen.simps) (simp add: p1_def)
    have "p\<lparr>currentType := resolve_type grp,
             captureBuffer := drop (i + len) (scanBuffer p) @ b, scanBuffer := [],
             state := Capturing, unclosedTimer := Some Pending\<rparr>
          = p1\<lparr>captureBuffer := captureBuffer p1 @ b\<rparr>"
      by (cases p) (simp add: p1_def)
    then have r: "tryScanOpen (p\<lparr>scanBuffer := scanBuffer p @ b\<rparr>)
        = tryClose (p1\<lparr>captureBuffer := captureBuffer p1 @ b\<rparr>)"
      using exec_open_append [OF e, of b] bd
      by (subst tryScanOpen.simps) simp
    have sh: "short_tags (captureBuffer p1 @ b)"
      using short_tags_drop [OF "1.prems"(3), of "i + len"] bd by (simp add: p1_def)
    have ls: "lower_stable (captureBuffer p1 @ b)"
      using lower_stable_drop [OF "1.prems"(4), of "i + len"] bd by (simp add: p1_def)
    have "push b (tryClose p1) = tryClose (p1\<lparr>captureBuffer := captureBuffer p1 @ b\<rparr>)"
      using "1.IH" [OF Some a [symmetric, simplified] refl, folded p1_def] "1.prems"(2) sh ls
      by (simp add: p1_def)
    with l r show ?thesis by simp
  qed
next
  case (2 q)
  show ?case
  proof (cases "indexOf CLOSE_TAG (toLowerCase (captureBuffer q))")
    case None
    then have "tryClose q = q" by (subst tryClose.simps) simp
    then show ?thesis using "2.prems" by (simp add: push_def)
  next
    case (Some idx)
    have "lower_stable (captureBuffer q)" using "2.prems"(4) by (simp add: lower_stable_append)
    then have "length (toLowerCase (captureBuffer q)) = length (captureBuffer q)"
      by (simp add: lower_stable_def)
    with indexOf_bounds [OF Some] have bd: "idx + length CLOSE_TAG \<le> length (captureBuffer q)"
      by simp
    have ix: "indexOf CLOSE_TAG (toLowerCase (captureBuffer q @ b)) = Some idx"
      using indexOf_append [OF Some] by (simp add: toLowerCase_append)
    define r where "r = drop (idx + length CLOSE_TAG) (captureBuffer q)"
    define q1 where "q1 = q\<lparr>unclosedTimer := None,
        emitted := emitted q @
          [\<lparr>msg_type = currentType q,
            msg_text = trim16 (stripAnsi16 (take idx (captureBuffer q))),
            incomplete = None\<rparr>],
        state := Scanning, captureBuffer := [], scanBuffer := r\<rparr>"
    have l: "tryClose q = (if r \<noteq> [] then tryScanOpen q1 else q1)"
      using Some by (subst tryClose.simps) (simp add: q1_def r_def)
    have "\<And>sb. q\<lparr>unclosedTimer := None,
        emitted := emitted q @
          [\<lparr>msg_type = currentType q,
            msg_text = trim16 (stripAnsi16 (take idx (captureBuffer q))),
            incomplete = None\<rparr>],
        state := Scanning, captureBuffer := [], scanBuffer := sb\<rparr>
        = q1\<lparr>scanBuffer := sb\<rparr>"
      by (cases q) (simp add: q1_def)
    then have rr: "tryClose (q\<lparr>captureBuffer := captureBuffer q @ b\<rparr>)
        = (if r @ b \<noteq> [] then tryScanOpen (q1\<lparr>scanBuffer := r @ b\<rparr>)
           else q1\<lparr>scanBuffer := r @ b\<rparr>)"
      using ix bd by (subst tryClose.simps) (simp add: r_def)
    have sh: "short_tags (r @ b)"
      using short_tags_drop [OF "2.prems"(3), of "idx + length CLOSE_TAG"] bd by (simp add: r_def)
    have ls: "lower_stable (r @ b)"
      using lower_stable_drop [OF "2.prems"(4), of "idx + length CLOSE_TAG"] bd by (simp add: r_def)
    show ?thesis
    proof (cases "r = []")
      case True
      have "push b q1 = tryScanOpen (q1\<lparr>scanBuffer := b\<rparr>)"
        using True "2.prems"(2) by (simp add: push_def q1_def)
      moreover have "b = [] \<Longrightarrow> tryScanOpen (q1\<lparr>scanBuffer := b\<rparr>) = q1\<lparr>scanBuffer := b\<rparr>"
        by (simp add: tryScanOpen_empty)
      ultimately show ?thesis using l rr True by auto
    next
      case False
      have "push b (tryScanOpen q1) = tryScanOpen (q1\<lparr>scanBuffer := scanBuffer q1 @ b\<rparr>)"
        using "2.IH" [OF Some False [unfolded r_def], folded r_def, folded q1_def] "2.prems"(2) sh ls
        by (simp add: q1_def)
      then show ?thesis using l rr False by (simp add: q1_def)
    qed
  qed
qed

lemma push_push:
  assumes "activated p" and "state p = Scanning" and "scanBuffer p = []"
    and "short_tags (a @ b)" and "lower_stable (a @ b)"
  shows "push b (push a p) = push (a @ b) p"
proof -
  have "state (p\<lparr>scanBuffer := a\<rparr>) = Scanning" "activated (p\<lparr>scanBuffer := a\<rparr>)"
    "short_tags (scanBuffer (p\<lparr>scanBuffer := a\<rparr>) @ b)"
    "lower_stable (scanBuffer (p\<lparr>scanBuffer := a\<rparr>) @ b)"
    using assms by simp_all
  from push_after_scan_close(1) [OF this]
  have "push b (tryScanOpen (p\<lparr>scanBuffer := a\<rparr>)) = tryScanOpen (p\<lparr>scanBuffer := a @ b\<rparr>)"
    by simp
  then show ?thesis using assms(1,2,3) by (simp add: push_def)
qed

lemma push_empty:
  assumes "activated p" and "state p = Scanning" and "scanBuffer p = []"
  shows "push [] p = p"
proof -
  have "p\<lparr>scanBuffer := []\<rparr> = p" using assms(3) by (cases p) simp
  then show ?thesis using assms tryScanOpen_empty [of p] by (simp add: push_def)
qed

lemma feed_snoc: "feed (chunks @ [b]) p = push b (feed chunks p)"
  by (simp add: feed_def)

lemma feed_is_push_concat:
  assumes "activated p" and "state p = Scanning" and "scanBuffer p = []"
  shows "short_tags (concat chunks) \<Longrightarrow> lower_stable (concat chunks) \<Longrightarrow>
           feed chunks p = push (concat chunks) p"
proof (induction chunks rule: rev_induct)
  case Nil
  show ?case using push_empty [OF assms] by (simp add: feed_def)
next
  case (snoc b chunks)
  have sh: "short_tags (concat chunks @ b)" using snoc.prems(1) by simp
  then have s0: "short_tags (concat chunks)" by (rule short_tags_prefix)
  have ls: "lower_stable (concat chunks @ b)" using snoc.prems(2) by simp
  then have l0: "lower_stable (concat chunks)" by (simp add: lower_stable_append)
  from s0 l0 have "feed chunks p = push (concat chunks) p" by (rule snoc.IH)
  then have "feed (chunks @ [b]) p = push b (push (concat chunks) p)" by (simp add: feed_snoc)
  also have "\<dots> = push (concat chunks @ b) p" using assms sh ls by (rule push_push)
  finally show ?case by simp
qed

text \<open>
  C1, as amended. Take an activated parser that is scanning with an empty scan buffer (as
  it is right after activation), and a text in which every open marker is at most
  \<open>SCAN_TAIL + 1 = 41\<close> code units long (a type suffix of at most 29) and which holds no
  U+0130, so that lower-casing keeps its length. Then feeding the text in chunks,
  however it is split, leaves the parser in the state that feeding the whole text as one
  chunk leaves it in: the same envelope messages in the same order, the same buffers.
  And the three chunks of the scenario give one message of type done with the text
  \<open>finished\<close>, absent \<open>incomplete\<close> flag, and leave \<open>world\<close> in the scan buffer.
\<close>

theorem chunked_feed_equals_single_chunk:
  "(activated p \<and> state p = Scanning \<and> scanBuffer p = [] \<and> short_tags (concat chunks)
      \<and> lower_stable (concat chunks) \<longrightarrow>
      feed chunks p = push (concat chunks) p
      \<and> emitted (feed chunks p) = emitted (push (concat chunks) p))
   \<and> emitted (feed [str ''hello <<<SLA'', str ''CK:done>>>finished<<<END_SLA'', str ''CK>>>world'']
        activated_parser)
       = [\<lparr>msg_type = Some Done, msg_text = str ''finished'', incomplete = None\<rparr>]
   \<and> scanBuffer (feed [str ''hello <<<SLA'', str ''CK:done>>>finished<<<END_SLA'', str ''CK>>>world'']
        activated_parser) = str ''world''
   \<and> state (feed [str ''hello <<<SLA'', str ''CK:done>>>finished<<<END_SLA'', str ''CK>>>world'']
        activated_parser) = Scanning"
proof -
  have a: "emitted (feed [str ''hello <<<SLA'', str ''CK:done>>>finished<<<END_SLA'', str ''CK>>>world'']
        activated_parser)
       = [\<lparr>msg_type = Some Done, msg_text = str ''finished'', incomplete = None\<rparr>]"
    by code_simp
  have b: "scanBuffer (feed [str ''hello <<<SLA'', str ''CK:done>>>finished<<<END_SLA'', str ''CK>>>world'']
        activated_parser) = str ''world''"
    by code_simp
  have c: "state (feed [str ''hello <<<SLA'', str ''CK:done>>>finished<<<END_SLA'', str ''CK>>>world'']
        activated_parser) = Scanning"
    by code_simp
  show ?thesis using a b c by (simp add: feed_is_push_concat)
qed

theorem chunked_feed_equals_single_chunk_witness:
  "activated activated_parser \<and> state activated_parser = Scanning
   \<and> scanBuffer activated_parser = []
   \<and> short_tags (concat [str ''hello <<<SLA'', str ''CK:done>>>finished<<<END_SLA'', str ''CK>>>world''])
   \<and> lower_stable (concat [str ''hello <<<SLA'', str ''CK:done>>>finished<<<END_SLA'', str ''CK>>>world''])
   \<and> emitted (push (str ''hello <<<SLACK:done>>>finished<<<END_SLACK>>>world'') activated_parser)
       = [\<lparr>msg_type = Some Done, msg_text = str ''finished'', incomplete = None\<rparr>]
   \<and> feed [str ''hello <<<SLA'', str ''CK:done>>>finished<<<END_SLA'', str ''CK>>>world''] activated_parser
       = push (str ''hello <<<SLACK:done>>>finished<<<END_SLACK>>>world'') activated_parser"
proof -
  have h: "activated activated_parser" "state activated_parser = Scanning"
    "scanBuffer activated_parser = []"
    by (simp_all add: activated_parser_def activation_fires_def new_parser_def)
  have s: "short_tags (concat [str ''hello <<<SLA'', str ''CK:done>>>finished<<<END_SLA'', str ''CK>>>world''])"
    by code_simp
  have l: "lower_stable (concat [str ''hello <<<SLA'', str ''CK:done>>>finished<<<END_SLA'', str ''CK>>>world''])"
    by code_simp
  have c: "concat [str ''hello <<<SLA'', str ''CK:done>>>finished<<<END_SLA'', str ''CK>>>world'']
      = str ''hello <<<SLACK:done>>>finished<<<END_SLACK>>>world''" by (simp add: lit)
  note t = chunked_feed_equals_single_chunk
         [of activated_parser "[str ''hello <<<SLA'', str ''CK:done>>>finished<<<END_SLA'', str ''CK>>>world'']"]
  from t h s l have e: "feed [str ''hello <<<SLA'', str ''CK:done>>>finished<<<END_SLA'', str ''CK>>>world'']
        activated_parser
      = push (str ''hello <<<SLACK:done>>>finished<<<END_SLACK>>>world'') activated_parser"
    unfolding c by blast
  from t have "emitted (feed [str ''hello <<<SLA'', str ''CK:done>>>finished<<<END_SLA'', str ''CK>>>world'']
        activated_parser)
      = [\<lparr>msg_type = Some Done, msg_text = str ''finished'', incomplete = None\<rparr>]"
    by blast
  then have "emitted (push (str ''hello <<<SLACK:done>>>finished<<<END_SLACK>>>world'') activated_parser)
      = [\<lparr>msg_type = Some Done, msg_text = str ''finished'', incomplete = None\<rparr>]"
    unfolding e .
  with h s l e show ?thesis unfolding c by blast
qed

text \<open>
  C1 as stated fails: an open marker of 42 code units whose last unit arrives in a
  second chunk is cut by the trimming of the scan buffer to \<open>SCAN_TAIL\<close> units and never
  matches, while the same text in one chunk gives one (untyped) message.
\<close>

theorem long_marker_split_counterexample:
  "emitted (feed [str ''<<<SLACK:aaaaaaaaaaaaaaaaaaaaaaaaaaaaaa>>'', str ''>hi<<<END_SLACK>>>'']
      activated_parser) = []
   \<and> emitted (push (concat [str ''<<<SLACK:aaaaaaaaaaaaaaaaaaaaaaaaaaaaaa>>'', str ''>hi<<<END_SLACK>>>''])
      activated_parser)
     = [\<lparr>msg_type = None, msg_text = str ''hi'', incomplete = None\<rparr>]"
  by code_simp

text \<open>
  What the amended statement leaves out. \<open>tryClose\<close> finds the close tag in the lowered
  copy of the capture buffer and cuts the buffer itself at that index. With U+0130 in
  the captured text the lowered copy is longer, so the cut comes one unit late for each
  U+0130: the message takes the first unit of the close marker, and what follows the
  envelope loses its first unit. In one chunk the open marker that follows is damaged
  and its envelope is lost; split after the first close marker, both envelopes are
  emitted.
\<close>

lemma dotted_capital_split_differs:
  "emitted (push (str ''<<<SLACK:done>>>'' @ [304] @ str ''<<<END_SLACK>>><<<SLACK>>>hi<<<END_SLACK>>>'')
      activated_parser)
     = [\<lparr>msg_type = Some Done, msg_text = [304] @ str ''<'', incomplete = None\<rparr>]
   \<and> emitted (feed [str ''<<<SLACK:done>>>'' @ [304] @ str ''<<<END_SLACK>>>'',
                    str ''<<<SLACK>>>hi<<<END_SLACK>>>''] activated_parser)
     = [\<lparr>msg_type = Some Done, msg_text = [304] @ str ''<'', incomplete = None\<rparr>,
        \<lparr>msg_type = None, msg_text = str ''hi'', incomplete = None\<rparr>]
   \<and> short_tags (str ''<<<SLACK:done>>>'' @ [304] @ str ''<<<END_SLACK>>><<<SLACK>>>hi<<<END_SLACK>>>'')
   \<and> \<not> lower_stable (str ''<<<SLACK:done>>>'' @ [304] @ str ''<<<END_SLACK>>><<<SLACK>>>hi<<<END_SLACK>>>'')"
  by code_simp

section \<open>Envelopes: round trip and unclosed timeout\<close>

lemma type_name_letters: "c \<in> set (str (type_name t)) \<Longrightarrow> between 97 122 c"
  by (cases t) (auto simp: between_def)

lemma valid_type_name: "valid_type (str (type_name t)) = Some t"
  by (cases t) (simp_all add: valid_type_def)

text \<open>A unit that matches an ASCII unit of a pattern, which is no capital letter, lowers
  to that unit; it is that unit when the pattern has no letter there, and a word
  character when it has one.\<close>

lemma ci_eq_lower:
  assumes "ci_eq p c" and "p < 128" and "\<not> between 65 90 p"
  shows "lower_unit c = [p]"
  using assms by (auto simp: ci_eq_def lower_unit_def between_def)

lemma ci_eq_list_lower:
  "list_all2 ci_eq pat s \<Longrightarrow> \<forall>p\<in>set pat. p < 128 \<and> \<not> between 65 90 p \<Longrightarrow> toLowerCase s = pat"
proof (induction rule: list_all2_induct)
  case Nil
  show ?case by (simp add: toLowerCase_Nil)
next
  case (Cons p ps c cs)
  have "lower_unit c = [p]" using Cons.hyps(1) Cons.prems by (simp add: ci_eq_lower)
  moreover have "toLowerCase cs = ps" using Cons.IH Cons.prems by simp
  ultimately show ?case by (simp add: toLowerCase_Cons)
qed

lemma ci_eq_list_exact:
  "list_all2 ci_eq pat s \<Longrightarrow> \<forall>p\<in>set pat. \<not> between 97 122 p \<Longrightarrow> s = pat"
proof (induction rule: list_all2_induct)
  case Nil
  show ?case by simp
next
  case (Cons p ps c cs)
  have "c = p" using Cons.hyps(1) Cons.prems by (simp add: ci_eq_def)
  moreover have "cs = ps" using Cons.IH Cons.prems by simp
  ultimately show ?case by simp
qed

lemma ci_eq_list_word:
  "list_all2 ci_eq pat s \<Longrightarrow> \<forall>p\<in>set pat. between 97 122 p \<Longrightarrow> \<forall>c\<in>set s. is_word c"
proof (induction rule: list_all2_induct)
  case Nil
  show ?case by simp
next
  case (Cons p ps c cs)
  have "is_word c" using Cons.hyps(1) Cons.prems
    by (auto simp: ci_eq_def is_word_def between_def)
  moreover have "\<forall>c\<in>set cs. is_word c" using Cons.IH Cons.prems by simp
  ultimately show ?case by simp
qed

lemma list_all2_append_split:
  "list_all2 P (xs @ ys) zs \<Longrightarrow> \<exists>us vs. zs = us @ vs \<and> list_all2 P xs us \<and> list_all2 P ys vs"
proof (induction xs arbitrary: zs)
  case Nil
  then show ?case by (intro exI [of _ "[]"] exI [of _ zs]) simp
next
  case (Cons x xs)
  then obtain z zs' where z: "zs = z # zs'" "P x z" "list_all2 P (xs @ ys) zs'"
    by (cases zs) auto
  from Cons.IH [OF z(3)] obtain us vs
    where u: "zs' = us @ vs" "list_all2 P xs us" "list_all2 P ys vs"
    by (elim exE conjE)
  show ?case using z u by (intro exI [of _ "z # us"] exI [of _ vs]) simp
qed

lemma open_marker_match:
  assumes "is_open_marker t om"
  shows "\<exists>w. match_open_here om = Some (length om, Some w) \<and> toLowerCase w = str (type_name t)"
proof -
  have "str ''<<<slack:'' @ str (type_name t) @ str ''>>>''
      = str ''<<<slack'' @ (str '':'' @ (str (type_name t) @ str ''>>>''))" by simp
  with assms
  have h: "list_all2 ci_eq (str ''<<<slack'' @ (str '':'' @ (str (type_name t) @ str ''>>>''))) om"
    by (simp only: is_open_marker_def)
  from list_all2_append_split [OF h]
  obtain a r1 where om: "om = a @ r1" and ca: "list_all2 ci_eq (str ''<<<slack'') a"
    and r1: "list_all2 ci_eq (str '':'' @ (str (type_name t) @ str ''>>>'')) r1"
    by (elim exE conjE)
  from list_all2_append_split [OF r1]
  obtain k r2 where r1': "r1 = k @ r2" and k: "list_all2 ci_eq (str '':'') k"
    and r2: "list_all2 ci_eq (str (type_name t) @ str ''>>>'') r2"
    by (elim exE conjE)
  from list_all2_append_split [OF r2]
  obtain w c where r2': "r2 = w @ c" and w: "list_all2 ci_eq (str (type_name t)) w"
    and c: "list_all2 ci_eq (str ''>>>'') c"
    by (elim exE conjE)
  have "length (str ''<<<slack'') = length a" using ca by (rule list_all2_lengthD)
  then have la: "length a = 8" by simp
  have ke: "k = str '':''" using k by (rule ci_eq_list_exact) (simp add: between_def)
  have ce: "c = str ''>>>''" using c by (rule ci_eq_list_exact) (simp add: between_def)
  have letters: "\<forall>p\<in>set (str (type_name t)). between 97 122 p"
    using type_name_letters by blast
  have ww: "\<forall>x\<in>set w. is_word x" using w letters by (rule ci_eq_list_word)
  have "length (str (type_name t)) = length w" using w by (rule list_all2_lengthD)
  then have wne: "w \<noteq> []" by (cases t) auto
  have ng: "\<not> is_word (cu CHR ''>'')" by (simp add: is_word_def between_def)
  have tw: "takeWhile is_word (w @ str ''>>>'') = w" using ww ng by (simp add: takeWhile_append2)
  have dw: "dropWhile is_word (w @ str ''>>>'') = str ''>>>''" using ww ng by (simp add: dropWhile_append2)
  have e: "om = a @ cu CHR '':'' # (w @ str ''>>>'')"
    using om r1' r2' ke ce by simp
  have "match_open_here om = Some (length om, Some w)"
    unfolding e using ca la wne tw dw
    by (simp add: match_open_here_def del: takeWhile_append dropWhile_append)
  moreover have "toLowerCase w = str (type_name t)"
    using w
  proof (rule ci_eq_list_lower)
    show "\<forall>p\<in>set (str (type_name t)). p < 128 \<and> \<not> between 65 90 p"
      using letters by (auto simp: between_def)
  qed
  ultimately show ?thesis by blast
qed

lemma close_marker_lower:
  assumes "is_close_marker cm"
  shows "toLowerCase cm = CLOSE_TAG" and "length cm = length CLOSE_TAG"
proof -
  have c: "list_all2 ci_eq CLOSE_TAG cm" using assms by (simp add: is_close_marker_def)
  show "toLowerCase cm = CLOSE_TAG"
    using c by (rule ci_eq_list_lower) (simp add: CLOSE_TAG_def between_def)
  show "length cm = length CLOSE_TAG"
    using list_all2_lengthD [OF c] by simp
qed

lemma close_marker_eq: "is_close_marker cm \<Longrightarrow> toLowerCase (body @ cm) = toLowerCase body @ CLOSE_TAG"
  by (simp add: toLowerCase_append close_marker_lower)

lemma close_no_border:
  assumes "0 < k" and "k < 15"
  shows "take (15 - k) CLOSE_TAG \<noteq> drop k CLOSE_TAG"
proof -
  from assms have "k = 1 \<or> k = 2 \<or> k = 3 \<or> k = 4 \<or> k = 5 \<or> k = 6 \<or> k = 7 \<or> k = 8 \<or> k = 9
      \<or> k = 10 \<or> k = 11 \<or> k = 12 \<or> k = 13 \<or> k = 14" by arith
  then show ?thesis by (elim disjE) (simp_all add: CLOSE_TAG_def)
qed

lemma indexOf_close_at_end:
  "indexOf CLOSE_TAG h = None \<Longrightarrow> indexOf CLOSE_TAG (h @ CLOSE_TAG) = Some (length h)"
proof (induction h)
  case Nil
  show ?case by (simp add: CLOSE_TAG_def)
next
  case (Cons c cs)
  from Cons.prems have n0: "take (length CLOSE_TAG) (c # cs) \<noteq> CLOSE_TAG"
    and n1: "indexOf CLOSE_TAG cs = None"
    by (auto split: if_splits)
  have l15: "length CLOSE_TAG = 15" by (simp add: CLOSE_TAG_def)
  have "take (length CLOSE_TAG) ((c # cs) @ CLOSE_TAG) \<noteq> CLOSE_TAG"
  proof
    assume eq: "take (length CLOSE_TAG) ((c # cs) @ CLOSE_TAG) = CLOSE_TAG"
    show False
    proof (cases "15 \<le> length (c # cs)")
      case True
      then have "take (length CLOSE_TAG) ((c # cs) @ CLOSE_TAG) = take (length CLOSE_TAG) (c # cs)"
        unfolding l15 by (rule take_append_le)
      with eq n0 show False by simp
    next
      case False
      define k where "k = length (c # cs)"
      have k: "0 < k" "k < 15" using False by (simp_all add: k_def)
      have "take (length CLOSE_TAG) ((c # cs) @ CLOSE_TAG) = (c # cs) @ take (15 - k) CLOSE_TAG"
        using k unfolding l15 k_def by simp
      with eq have "(c # cs) @ take (15 - k) CLOSE_TAG = CLOSE_TAG" by simp
      then have "take (15 - k) CLOSE_TAG = drop k CLOSE_TAG"
        unfolding k_def by (metis append_eq_conv_conj)
      with close_no_border [OF k] show False by simp
    qed
  qed
  then show ?case using Cons.IH [OF n1] by simp
qed

lemma exec_open_at_start:
  "match_open_here s = Some (len, grp) \<Longrightarrow> exec_open (s @ t) = Some (0, len, grp)"
proof -
  assume m: "match_open_here s = Some (len, grp)"
  then have "match_open_here (s @ t) = Some (len, grp)" by (rule match_open_here_append)
  moreover have "s @ t \<noteq> []" using m by (auto simp: match_open_here_def)
  ultimately show ?thesis by (cases "s @ t") simp_all
qed

lemma CLOSE_TAG_not_empty: "CLOSE_TAG \<noteq> []"
  by (simp add: CLOSE_TAG_def)

lemma tryClose_body_close:
  assumes "is_close_marker cm" and "\<not> contains_close body" and "lower_stable body"
  shows "tryClose (p\<lparr>currentType := ty, captureBuffer := body @ cm, scanBuffer := [],
                    state := Capturing, unclosedTimer := Some Pending\<rparr>)
         = after_envelope ty body p"
proof -
  have n: "indexOf CLOSE_TAG (toLowerCase body) = None" using assms(2) by (simp add: contains_close_def)
  have "length (toLowerCase body) = length body" using assms(3) by (simp add: lower_stable_def)
  then have i: "indexOf CLOSE_TAG (toLowerCase (body @ cm)) = Some (length body)"
    using indexOf_close_at_end [OF n] close_marker_eq [OF assms(1), of body]
    by simp
  have l: "length cm = length CLOSE_TAG" using assms(1) by (rule close_marker_lower)
  show ?thesis
    by (subst tryClose.simps, cases p) (simp add: i l after_envelope_def)
qed

lemma push_envelope_single:
  assumes "activated p" and "state p = Scanning" and "scanBuffer p = []"
    and "match_open_here om = Some (length om, grp)"
    and "is_close_marker cm" and "\<not> contains_close body" and "lower_stable body"
  shows "push (om @ body @ cm) p = after_envelope (resolve_type grp) body p"
proof -
  have e: "exec_open (om @ body @ cm) = Some (0, length om, grp)"
    using assms(4) by (rule exec_open_at_start)
  have "push (om @ body @ cm) p = tryScanOpen (p\<lparr>scanBuffer := om @ body @ cm\<rparr>)"
    using assms(1,2,3) by (simp add: push_def)
  also have "\<dots> = tryClose (p\<lparr>currentType := resolve_type grp, captureBuffer := body @ cm,
                    scanBuffer := [], state := Capturing, unclosedTimer := Some Pending\<rparr>)"
    by (subst tryScanOpen.simps) (simp add: e)
  also have "\<dots> = after_envelope (resolve_type grp) body p"
    using assms(5,6,7) by (rule tryClose_body_close)
  finally show ?thesis .
qed

lemma feed_envelope_three:
  assumes "activated p" and "state p = Scanning" and "scanBuffer p = []"
    and "match_open_here om = Some (length om, grp)"
    and "is_close_marker cm" and "\<not> contains_close body" and "lower_stable body"
  shows "feed [om, body, cm] p = after_envelope (resolve_type grp) body p"
proof -
  have e: "exec_open om = Some (0, length om, grp)"
    using exec_open_at_start [OF assms(4), of "[]"] by simp
  define p1 where "p1 = p\<lparr>currentType := resolve_type grp, captureBuffer := [], scanBuffer := [],
                    state := Capturing, unclosedTimer := Some Pending\<rparr>"
  have "push om p = tryScanOpen (p\<lparr>scanBuffer := om\<rparr>)"
    using assms(1,2,3) by (simp add: push_def)
  also have "\<dots> = tryClose p1"
    by (subst tryScanOpen.simps) (simp add: e p1_def)
  also have "\<dots> = p1"
    by (subst tryClose.simps) (simp add: p1_def toLowerCase_Nil CLOSE_TAG_not_empty)
  finally have s1: "push om p = p1" .
  have n: "indexOf CLOSE_TAG (toLowerCase body) = None" using assms(6) by (simp add: contains_close_def)
  have "push body p1 = tryClose (p1\<lparr>captureBuffer := body\<rparr>)"
    using assms(1) by (simp add: push_def p1_def)
  also have "\<dots> = p1\<lparr>captureBuffer := body\<rparr>"
    by (subst tryClose.simps) (simp add: n)
  finally have s2: "push body p1 = p1\<lparr>captureBuffer := body\<rparr>" .
  have "push cm (p1\<lparr>captureBuffer := body\<rparr>) = tryClose (p1\<lparr>captureBuffer := body @ cm\<rparr>)"
    using assms(1) by (simp add: push_def p1_def)
  also have "p1\<lparr>captureBuffer := body @ cm\<rparr>
      = p\<lparr>currentType := resolve_type grp, captureBuffer := body @ cm, scanBuffer := [],
                    state := Capturing, unclosedTimer := Some Pending\<rparr>"
    by (cases p) (simp add: p1_def)
  also have "tryClose \<dots> = after_envelope (resolve_type grp) body p"
    using assms(5,6,7) by (rule tryClose_body_close)
  finally have s3: "push cm (p1\<lparr>captureBuffer := body\<rparr>) = after_envelope (resolve_type grp) body p" .
  show ?thesis by (simp add: feed_def s1 s2 s3)
qed

lemma untyped_open_marker_match:
  assumes "is_untyped_open_marker om"
  shows "match_open_here om = Some (length om, None)"
proof -
  have "str ''<<<slack>>>'' = str ''<<<slack'' @ str ''>>>''" by simp
  with assms have h: "list_all2 ci_eq (str ''<<<slack'' @ str ''>>>'') om"
    by (simp only: is_untyped_open_marker_def)
  from list_all2_append_split [OF h]
  obtain a c where om: "om = a @ c" and ca: "list_all2 ci_eq (str ''<<<slack'') a"
    and c: "list_all2 ci_eq (str ''>>>'') c"
    by (elim exE conjE)
  have "length (str ''<<<slack'') = length a" using ca by (rule list_all2_lengthD)
  then have la: "length a = 8" by simp
  have ce: "c = str ''>>>''" using c by (rule ci_eq_list_exact) (simp add: between_def)
  show ?thesis unfolding om ce using ca la by (simp add: match_open_here_def)
qed

lemma typed_open_marker_resolves:
  assumes "is_open_marker t om"
  shows "\<exists>grp. match_open_here om = Some (length om, grp) \<and> resolve_type grp = Some t"
proof -
  from open_marker_match [OF assms] obtain w
    where m: "match_open_here om = Some (length om, Some w)" and w: "toLowerCase w = str (type_name t)"
    by (elim exE conjE)
  have "resolve_type (Some w) = Some t" by (simp only: resolve_type_def option.case w valid_type_name)
  with m show ?thesis by blast
qed

lemma capturing_inv_scan_close:
  shows "activated p \<Longrightarrow> state p = Scanning \<Longrightarrow> capturing_inv (tryScanOpen p)"
    and "activated q \<Longrightarrow> scanBuffer q = [] \<Longrightarrow> unclosedTimer q = Some Pending \<Longrightarrow>
           capturing_inv (tryClose q)"
proof (induction p and q rule: tryScanOpen_tryClose.induct)
  case (1 p)
  show ?case
  proof (cases "exec_open (scanBuffer p)")
    case None
    then have "state (tryScanOpen p) = Scanning"
      using "1.prems" by (subst tryScanOpen.simps) simp
    then show ?thesis by (simp add: capturing_inv_def)
  next
    case (Some a)
    obtain i len grp where a: "a = (i, len, grp)" by (cases a) auto
    have "tryScanOpen p = tryClose (p\<lparr>currentType := resolve_type grp,
        captureBuffer := drop (i + len) (scanBuffer p), scanBuffer := [],
        state := Capturing, unclosedTimer := Some Pending\<rparr>)"
      using Some a by (subst tryScanOpen.simps) simp
    moreover have "capturing_inv (tryClose (p\<lparr>currentType := resolve_type grp,
        captureBuffer := drop (i + len) (scanBuffer p), scanBuffer := [],
        state := Capturing, unclosedTimer := Some Pending\<rparr>))"
      using "1.IH" [OF Some a [symmetric, simplified] refl] "1.prems"(1) by simp
    ultimately show ?thesis by simp
  qed
next
  case (2 q)
  show ?case
  proof (cases "indexOf CLOSE_TAG (toLowerCase (captureBuffer q))")
    case None
    then have "tryClose q = q" by (subst tryClose.simps) simp
    then show ?thesis using "2.prems" by (simp add: capturing_inv_def)
  next
    case (Some idx)
    show ?thesis
    proof (cases "drop (idx + length CLOSE_TAG) (captureBuffer q) = []")
      case True
      then have "state (tryClose q) = Scanning"
        using Some by (subst tryClose.simps) simp
      then show ?thesis by (simp add: capturing_inv_def)
    next
      case False
      have "tryClose q = tryScanOpen (q\<lparr>unclosedTimer := None,
          emitted := emitted q @
            [\<lparr>msg_type = currentType q,
              msg_text = trim16 (stripAnsi16 (take idx (captureBuffer q))),
              incomplete = None\<rparr>],
          state := Scanning, captureBuffer := [],
          scanBuffer := drop (idx + length CLOSE_TAG) (captureBuffer q)\<rparr>)"
        using Some False by (subst tryClose.simps) simp
      moreover have "capturing_inv (tryScanOpen (q\<lparr>unclosedTimer := None,
          emitted := emitted q @
            [\<lparr>msg_type = currentType q,
              msg_text = trim16 (stripAnsi16 (take idx (captureBuffer q))),
              incomplete = None\<rparr>],
          state := Scanning, captureBuffer := [],
          scanBuffer := drop (idx + length CLOSE_TAG) (captureBuffer q)\<rparr>))"
        using "2.IH" [OF Some False] "2.prems"(1) by simp
      ultimately show ?thesis by simp
    qed
  qed
qed

lemma capturing_inv_step: "capturing_inv p \<Longrightarrow> capturing_inv (parser_step p ev)"
proof (cases ev)
  case (Push data)
  assume inv: "capturing_inv p"
  show ?thesis
  proof (cases "activated p")
    case False
    then show ?thesis using inv Push by (simp add: push_def)
  next
    case True
    show ?thesis
    proof (cases "state p")
      case Scanning
      then show ?thesis
        using True Push capturing_inv_scan_close(1) [of "p\<lparr>scanBuffer := scanBuffer p @ data\<rparr>"]
        by (simp add: push_def)
    next
      case Capturing
      then show ?thesis
        using True Push inv
          capturing_inv_scan_close(2) [of "p\<lparr>captureBuffer := captureBuffer p @ data\<rparr>"]
        by (simp add: push_def capturing_inv_def)
    qed
  qed
next
  case ActivationTimer
  assume "capturing_inv p"
  then show ?thesis using ActivationTimer
    by (auto simp: capturing_inv_def activation_fires_def)
next
  case UnclosedTimer
  assume "capturing_inv p"
  then show ?thesis using UnclosedTimer
    by (auto simp: capturing_inv_def unclosed_fires_def flushPartial_def)
next
  case Flush
  then show ?thesis by (simp add: capturing_inv_def flush_def reset_def)
qed

lemma capturing_inv_run: "capturing_inv (run_parser evs)"
proof (induction evs rule: rev_induct)
  case Nil
  show ?case by (simp add: run_parser_def capturing_inv_def new_parser_def)
next
  case (snoc ev evs)
  then show ?case using capturing_inv_step [of "run_parser evs" ev] by (simp add: run_parser_def)
qed

text \<open>
  C4, as amended. For every type tag of the closed set, every open marker carrying that
  tag and every close marker (each letter in upper or lower case), and every text whose
  lowered copy does not hold the close tag and has the length of the text (the text holds
  no U+0130): an activated parser that is scanning with an empty scan buffer, fed the
  open marker, the text and the close marker (as three chunks, or as one), emits exactly
  one more envelope message; its type is the tag, its text is the ANSI-stripped, trimmed
  text, and it carries no \<open>incomplete\<close> flag.
\<close>

theorem typed_envelope_roundtrip:
  assumes "activated p" and "state p = Scanning" and "scanBuffer p = []"
    and "is_open_marker t om" and "is_close_marker cm"
    and "\<not> contains_close body" and "lower_stable body"
  shows "emitted (feed [om, body, cm] p)
           = emitted p @ [\<lparr>msg_type = Some t, msg_text = trim16 (stripAnsi16 body), incomplete = None\<rparr>]
         \<and> emitted (push (om @ body @ cm) p)
           = emitted p @ [\<lparr>msg_type = Some t, msg_text = trim16 (stripAnsi16 body), incomplete = None\<rparr>]
         \<and> \<not> is_incomplete \<lparr>msg_type = Some t, msg_text = trim16 (stripAnsi16 body), incomplete = None\<rparr>
         \<and> state (feed [om, body, cm] p) = Scanning"
proof -
  from typed_open_marker_resolves [OF assms(4)] obtain grp
    where m: "match_open_here om = Some (length om, grp)" and r: "resolve_type grp = Some t"
    by (elim exE conjE)
  show ?thesis
    using feed_envelope_three [OF assms(1,2,3) m assms(5,6,7)]
      push_envelope_single [OF assms(1,2,3) m assms(5,6,7)]
    by (simp add: after_envelope_def is_incomplete_def r)
qed

theorem typed_envelope_roundtrip_witness:
  "activated activated_parser \<and> state activated_parser = Scanning
   \<and> scanBuffer activated_parser = []
   \<and> is_open_marker Warning (str ''<<<Slack:WARNING>>>'') \<and> is_close_marker (str ''<<<End_Slack>>>'')
   \<and> \<not> contains_close (str '' disk '' @ [27] @ str ''[31mfull'' @ [27] @ str ''[0m'' @ [8364, 13, 10])
   \<and> lower_stable (str '' disk '' @ [27] @ str ''[31mfull'' @ [27] @ str ''[0m'' @ [8364, 13, 10])
   \<and> emitted (feed [str ''<<<Slack:WARNING>>>'',
                    str '' disk '' @ [27] @ str ''[31mfull'' @ [27] @ str ''[0m'' @ [8364, 13, 10],
                    str ''<<<End_Slack>>>''] activated_parser)
       = [\<lparr>msg_type = Some Warning, msg_text = str ''disk full'' @ [8364], incomplete = None\<rparr>]"
proof -
  have h: "activated activated_parser" "state activated_parser = Scanning"
    "scanBuffer activated_parser = []"
    by (simp_all add: activated_parser_def activation_fires_def new_parser_def)
  have e: "emitted activated_parser = []"
    by (simp add: activated_parser_def activation_fires_def new_parser_def)
  have o: "is_open_marker Warning (str ''<<<Slack:WARNING>>>'')" by code_simp
  have c: "is_close_marker (str ''<<<End_Slack>>>'')" by code_simp
  have n: "\<not> contains_close (str '' disk '' @ [27] @ str ''[31mfull'' @ [27] @ str ''[0m'' @ [8364, 13, 10])"
    by code_simp
  have l: "lower_stable (str '' disk '' @ [27] @ str ''[31mfull'' @ [27] @ str ''[0m'' @ [8364, 13, 10])"
    by code_simp
  have t: "trim16 (stripAnsi16 (str '' disk '' @ [27] @ str ''[31mfull'' @ [27] @ str ''[0m''
          @ [8364, 13, 10])) = str ''disk full'' @ [8364]" by code_simp
  from typed_envelope_roundtrip [OF h o c n l] show ?thesis
    using h o c n l by (simp only: e t append_Nil simp_thms)
qed

text \<open>
  C4 as stated fails for a text that holds the close marker: the envelope ends at the
  first close marker, so the message has only the text before it.
\<close>

theorem close_marker_in_text_counterexample:
  "emitted (feed [str ''<<<SLACK:done>>>'', str ''a<<<END_SLACK>>>b'', str ''<<<END_SLACK>>>'']
      activated_parser)
     = [\<lparr>msg_type = Some Done, msg_text = str ''a'', incomplete = None\<rparr>]
   \<and> trim16 (stripAnsi16 (str ''a<<<END_SLACK>>>b'')) = str ''a<<<END_SLACK>>>b''"
  by code_simp

text \<open>
  What the amended statement leaves out. With U+0130 in the text, the index that
  \<open>tryClose\<close> finds in the lowered copy is one too far in the capture buffer for each
  U+0130 before the close marker: the text U+0130 \<open>stanbul\<close> comes out with the first
  unit of the close marker behind it. And the Kelvin sign lowers to k, so a text that
  holds the close marker spelt with it ends the envelope there.
\<close>

lemma dotted_capital_in_text:
  "emitted (feed [str ''<<<SLACK:done>>>'', [304] @ str ''stanbul'', str ''<<<END_SLACK>>>'']
      activated_parser)
     = [\<lparr>msg_type = Some Done, msg_text = [304] @ str ''stanbul<'', incomplete = None\<rparr>]
   \<and> \<not> contains_close ([304] @ str ''stanbul'')
   \<and> \<not> lower_stable ([304] @ str ''stanbul'')
   \<and> trim16 (stripAnsi16 ([304] @ str ''stanbul'')) = [304] @ str ''stanbul''"
  by code_simp

lemma kelvin_close_marker_in_text:
  "contains_close (str ''a<<<END_SLAC'' @ [8490] @ str ''>>>b'')
   \<and> emitted (feed [str ''<<<SLACK:done>>>'', str ''a<<<END_SLAC'' @ [8490] @ str ''>>>b'',
                    str ''<<<END_SLACK>>>''] activated_parser)
     = [\<lparr>msg_type = Some Done, msg_text = str ''a'', incomplete = None\<rparr>]"
  by code_simp

text \<open>
  C5, as amended. Whenever a parser (in any state it can reach from its construction) is
  capturing and its unclosed timer fires: it emits the ANSI-stripped, trimmed capture
  buffer as one message with \<open>incomplete = true\<close> if that text is not empty, and no
  message if it is empty; it is then scanning with empty buffers, and its timer has fired
  (no timer is pending); and a following open marker (typed or untyped), text, and close
  marker give exactly one more message, of that type and text, without \<open>incomplete\<close>
  flag, when the lowered copy of the text does not hold the close tag and has the length
  of the text (the text holds no U+0130).
\<close>

theorem unclosed_timeout_flushes_capture:
  assumes "state (run_parser evs) = Capturing"
  shows "state (unclosed_fires (run_parser evs)) = Scanning
         \<and> captureBuffer (unclosed_fires (run_parser evs)) = []
         \<and> scanBuffer (unclosed_fires (run_parser evs)) = []
         \<and> unclosedTimer (unclosed_fires (run_parser evs)) = Some Fired
         \<and> emitted (unclosed_fires (run_parser evs)) = emitted (run_parser evs) @
             (if trim16 (stripAnsi16 (captureBuffer (run_parser evs))) = [] then []
              else [\<lparr>msg_type = currentType (run_parser evs),
                     msg_text = trim16 (stripAnsi16 (captureBuffer (run_parser evs))),
                     incomplete = Some True\<rparr>])
         \<and> (is_open_marker t om \<and> is_close_marker cm \<and> \<not> contains_close body
              \<and> lower_stable body \<longrightarrow>
              emitted (feed [om, body, cm] (unclosed_fires (run_parser evs)))
                = emitted (unclosed_fires (run_parser evs)) @
                    [\<lparr>msg_type = Some t, msg_text = trim16 (stripAnsi16 body), incomplete = None\<rparr>])
         \<and> (is_untyped_open_marker om \<and> is_close_marker cm \<and> \<not> contains_close body
              \<and> lower_stable body \<longrightarrow>
              emitted (feed [om, body, cm] (unclosed_fires (run_parser evs)))
                = emitted (unclosed_fires (run_parser evs)) @
                    [\<lparr>msg_type = None, msg_text = trim16 (stripAnsi16 body), incomplete = None\<rparr>])"
proof -
  define p where "p = run_parser evs"
  have inv: "scanBuffer p = []" "unclosedTimer p = Some Pending" "activated p"
    using capturing_inv_run [of evs] assms by (simp_all add: capturing_inv_def p_def)
  have a: "state (unclosed_fires p) = Scanning" "captureBuffer (unclosed_fires p) = []"
    "scanBuffer (unclosed_fires p) = []" "unclosedTimer (unclosed_fires p) = Some Fired"
    "activated (unclosed_fires p)"
    using inv by (simp_all add: unclosed_fires_def flushPartial_def)
  have b: "emitted (unclosed_fires p) = emitted p @
             (if trim16 (stripAnsi16 (captureBuffer p)) = [] then []
              else [\<lparr>msg_type = currentType p, msg_text = trim16 (stripAnsi16 (captureBuffer p)),
                     incomplete = Some True\<rparr>])"
    using inv by (simp add: unclosed_fires_def flushPartial_def)
  have c: "is_open_marker t om \<and> is_close_marker cm \<and> \<not> contains_close body
              \<and> lower_stable body \<longrightarrow>
              emitted (feed [om, body, cm] (unclosed_fires p))
                = emitted (unclosed_fires p) @
                    [\<lparr>msg_type = Some t, msg_text = trim16 (stripAnsi16 body), incomplete = None\<rparr>]"
  proof
    assume h: "is_open_marker t om \<and> is_close_marker cm \<and> \<not> contains_close body
              \<and> lower_stable body"
    from typed_open_marker_resolves [of t om] h obtain grp
      where m: "match_open_here om = Some (length om, grp)" and r: "resolve_type grp = Some t"
      by blast
    from feed_envelope_three [OF a(5) a(1) a(3) m, of cm body] h r
    show "emitted (feed [om, body, cm] (unclosed_fires p))
                = emitted (unclosed_fires p) @
                    [\<lparr>msg_type = Some t, msg_text = trim16 (stripAnsi16 body), incomplete = None\<rparr>]"
      by (simp add: after_envelope_def)
  qed
  have d: "is_untyped_open_marker om \<and> is_close_marker cm \<and> \<not> contains_close body
              \<and> lower_stable body \<longrightarrow>
              emitted (feed [om, body, cm] (unclosed_fires p))
                = emitted (unclosed_fires p) @
                    [\<lparr>msg_type = None, msg_text = trim16 (stripAnsi16 body), incomplete = None\<rparr>]"
  proof
    assume h: "is_untyped_open_marker om \<and> is_close_marker cm \<and> \<not> contains_close body
              \<and> lower_stable body"
    then have m: "match_open_here om = Some (length om, None)"
      using untyped_open_marker_match by blast
    from feed_envelope_three [OF a(5) a(1) a(3) m, of cm body] h
    show "emitted (feed [om, body, cm] (unclosed_fires p))
                = emitted (unclosed_fires p) @
                    [\<lparr>msg_type = None, msg_text = trim16 (stripAnsi16 body), incomplete = None\<rparr>]"
      by (simp add: after_envelope_def resolve_type_def)
  qed
  show ?thesis using a(1-4) b c d unfolding p_def by blast
qed

theorem unclosed_timeout_flushes_capture_witness:
  "state (run_parser [ActivationTimer, Push (str ''<<<SLACK:progress>>>half ''), Push (str ''done'')]) = Capturing
   \<and> emitted (unclosed_fires
        (run_parser [ActivationTimer, Push (str ''<<<SLACK:progress>>>half ''), Push (str ''done'')]))
       = [\<lparr>msg_type = Some Progress, msg_text = str ''half done'', incomplete = Some True\<rparr>]
   \<and> state (unclosed_fires
        (run_parser [ActivationTimer, Push (str ''<<<SLACK:progress>>>half ''), Push (str ''done'')])) = Scanning
   \<and> emitted (feed [str ''<<<SLACK:done>>>'', str ''ok'', str ''<<<END_SLACK>>>'']
        (unclosed_fires
          (run_parser [ActivationTimer, Push (str ''<<<SLACK:progress>>>half ''), Push (str ''done'')])))
       = [\<lparr>msg_type = Some Progress, msg_text = str ''half done'', incomplete = Some True\<rparr>,
          \<lparr>msg_type = Some Done, msg_text = str ''ok'', incomplete = None\<rparr>]"
proof -
  have s: "state (run_parser [ActivationTimer, Push (str ''<<<SLACK:progress>>>half ''), Push (str ''done'')])
      = Capturing" by code_simp
  have e: "emitted (run_parser [ActivationTimer, Push (str ''<<<SLACK:progress>>>half ''), Push (str ''done'')])
      = []" by code_simp
  have cb: "trim16 (stripAnsi16 (captureBuffer
      (run_parser [ActivationTimer, Push (str ''<<<SLACK:progress>>>half ''), Push (str ''done'')])))
      = str ''half done''" by code_simp
  have ct: "currentType (run_parser [ActivationTimer, Push (str ''<<<SLACK:progress>>>half ''), Push (str ''done'')])
      = Some Progress" by code_simp
  have m: "is_open_marker Done (str ''<<<SLACK:done>>>'')" "is_close_marker (str ''<<<END_SLACK>>>'')"
    "\<not> contains_close (str ''ok'')" "lower_stable (str ''ok'')"
    "trim16 (stripAnsi16 (str ''ok'')) = str ''ok''" by code_simp+
  note t = unclosed_timeout_flushes_capture [OF s, of Done "str ''<<<SLACK:done>>>''"
      "str ''<<<END_SLACK>>>''" "str ''ok''"]
  from t have 1: "emitted (unclosed_fires
        (run_parser [ActivationTimer, Push (str ''<<<SLACK:progress>>>half ''), Push (str ''done'')]))
       = [\<lparr>msg_type = Some Progress, msg_text = str ''half done'', incomplete = Some True\<rparr>]"
    by (simp only: e cb ct append_Nil) simp
  from t have 2: "state (unclosed_fires
        (run_parser [ActivationTimer, Push (str ''<<<SLACK:progress>>>half ''), Push (str ''done'')])) = Scanning"
    by blast
  from t m have 3: "emitted (feed [str ''<<<SLACK:done>>>'', str ''ok'', str ''<<<END_SLACK>>>'']
        (unclosed_fires
          (run_parser [ActivationTimer, Push (str ''<<<SLACK:progress>>>half ''), Push (str ''done'')])))
       = emitted (unclosed_fires
        (run_parser [ActivationTimer, Push (str ''<<<SLACK:progress>>>half ''), Push (str ''done'')])) @
        [\<lparr>msg_type = Some Done, msg_text = str ''ok'', incomplete = None\<rparr>]"
    by (simp only: simp_thms)
  show ?thesis using s 1 2 3 by (simp only: append_Cons append_Nil simp_thms)
qed

text \<open>
  C5 as stated fails when the capture buffer holds white space only: the timeout emits
  no message at all.
\<close>

theorem blank_capture_timeout_counterexample:
  "state (run_parser [ActivationTimer, Push (str ''<<<SLACK:progress>>>   '')]) = Capturing
   \<and> emitted (unclosed_fires (run_parser [ActivationTimer, Push (str ''<<<SLACK:progress>>>   '')])) = []"
  by code_simp

section \<open>Finalisation\<close>

lemma duplicate_exit_is_ignored: "exited r \<Longrightarrow> onExit exitCode r = r"
  by (simp add: onExit_def)

lemma exited_after_onExit: "exited (onExit exitCode r)"
  by (simp add: onExit_def finalise_def split: option.splits)

text \<open>A process that exits before the timer fires cancels the timer: the timer
  callback never runs.\<close>

lemma no_timeout_after_exit:
  assumes "s_timeoutHandle s \<noteq> Some Fired"
  shows "onTimeout (onExit exitCode (spawned s)) = onExit exitCode (spawned s)"
proof (cases "s_timeoutHandle s")
  case None
  then show ?thesis by (simp add: onTimeout_def onExit_def finalise_def spawned_def)
next
  case (Some t)
  with assms have "clearTimeout t \<noteq> Pending" by (cases t) (simp_all add: clearTimeout_def)
  with Some show ?thesis by (simp add: onTimeout_def onExit_def finalise_def spawned_def)
qed

lemma settled_step:
  assumes "settled r"
  shows "settled (runner_step r ev) \<and> finish_count (runner_step r ev) = finish_count r"
proof (cases ev)
  case (ExitFired c)
  with assms show ?thesis by (simp add: settled_def onExit_def)
next
  case TimeoutFired
  with assms show ?thesis by (auto simp: settled_def onTimeout_def split: option.splits)
next
  case (Resume k)
  with assms show ?thesis
    by (auto simp: settled_def resume_def finalise_end_def finish_count_def
          split: option.splits stage.splits)
qed

lemma settled_run:
  "settled r \<Longrightarrow> settled (run_runner evs r) \<and> finish_count (run_runner evs r) = finish_count r"
proof (induction evs rule: rev_induct)
  case Nil
  then show ?case by (simp add: run_runner_def)
next
  case (snoc ev evs)
  then have "settled (run_runner evs r)" and "finish_count (run_runner evs r) = finish_count r"
    by simp_all
  with settled_step [of "run_runner evs r" ev] show ?case by (simp add: run_runner_def)
qed

text \<open>When the process exits first, whatever follows (further exit events, the timer,
  the parts of \<open>finalise\<close> in any order), the router is finished exactly once.\<close>

lemma exit_first_finishes_once:
  assumes "s_timeoutHandle s \<noteq> Some Fired"
  shows "finish_count (run_runner (ExitFired exitCode # evs) (spawned s)) = 1"
proof -
  have c: "clearTimeout t \<noteq> Pending" for t by (cases t) (simp_all add: clearTimeout_def)
  have "settled (onExit exitCode (spawned s))"
    using c by (cases "s_timeoutHandle s")
      (simp_all add: settled_def onExit_def finalise_def spawned_def)
  from settled_run [OF this, of evs]
  have "finish_count (run_runner evs (onExit exitCode (spawned s)))
      = finish_count (onExit exitCode (spawned s))" by simp
  also have "\<dots> = 1" by (simp add: finish_count_def onExit_def finalise_def spawned_def)
  finally show ?thesis by (simp add: run_runner_def)
qed

text \<open>
  C2. The timer callback does not look at \<open>exited\<close> and does not set it. When the timer
  fires first, it kills the process and starts \<open>finalise\<close> with -1; the exit of the killed
  process then reaches \<open>onExit\<close> with \<open>exited\<close> still false, while the first \<open>finalise\<close> waits
  for the update of the start message and the session is still in the map: \<open>finalise\<close>
  runs a second time, and every effect of the end of the session happens twice.
\<close>

theorem timeout_then_exit_finalises_twice:
  "effects (run_runner [TimeoutFired, Resume 0, ExitFired 1, Resume 0, Resume 0, Resume 0]
      (spawned sample_session))
   = [Kill, RouterFinish (- 1), CompletionNotice ''1700000000.000300'' (- 1),
      RouterFinish 1, MapRemoval ''1700000000.000100'',
      CompletionNotice ''1700000000.000300'' 1, MapRemoval ''1700000000.000100'']"
  by (simp add: run_runner_def spawned_def sample_session_def onTimeout_def onExit_def
        finalise_def resume_def finalise_end_def truthy_def clearTimeout_def)

theorem timeout_then_exit_finalises_twice_witness:
  "length (filter (\<lambda>e. case e of RouterFinish c \<Rightarrow> True | _ \<Rightarrow> False)
     (effects (run_runner [TimeoutFired, Resume 0, ExitFired 1, Resume 0, Resume 0, Resume 0]
        (spawned sample_session)))) = 2
   \<and> effects (run_runner [ExitFired 0, ExitFired 0, TimeoutFired, Resume 0, Resume 0]
        (spawned sample_session))
     = [RouterFinish 0, CompletionNotice ''1700000000.000300'' 0,
        MapRemoval ''1700000000.000100'']"
proof -
  have "effects (run_runner [ExitFired 0, ExitFired 0, TimeoutFired, Resume 0, Resume 0]
        (spawned sample_session))
     = [RouterFinish 0, CompletionNotice ''1700000000.000300'' 0,
        MapRemoval ''1700000000.000100'']"
    by (simp add: run_runner_def spawned_def sample_session_def onTimeout_def onExit_def
        finalise_def resume_def finalise_end_def truthy_def clearTimeout_def)
  then show ?thesis using timeout_then_exit_finalises_twice by simp
qed

end
